theory Spec2Isabelle
  imports Main "HOL-Library.Word"
begin

section \<open>Event queues (src/events.c)\<close>

text \<open>
  The event queue of events.c buffers pointers to event records. The records are shared
  (an event may sit in several queues and carries a reference count), so they live in an
  explicit store, \<open>heap\<close>, addressed by \<open>event_ptr\<close>. Event sources are known to the
  queue by identity only. C names that start with an underscore lose it here
  (\<open>_al_vector_size\<close> is \<open>al_vector_size\<close>), and \<open>_refcount\<close>, \<open>_next\<close>,
  \<open>_next_free\<close> and the header fields of \<open>event->any\<close> carry the prefix \<open>ev_\<close>.
\<close>

type_synonym event_ptr = nat
type_synonym source_ptr = nat

text \<open>
  Modelled from the spec: the declaration of ALLEGRO_EVENT (allegro5/events.h) is not
  part of the sources at hand. The spec's EventRecord has a kind, the originating source,
  a timestamp, a payload of bounded size and a reference count; events.c also resets the
  two linkage fields \<open>_next\<close> and \<open>_next_free\<close>. The reference count is an unbounded
  integer here: events.c asserts that it stays positive after an increment.
\<close>

record event =
  ev_type :: nat
  ev_source :: source_ptr
  ev_timestamp :: nat
  ev_payload :: "nat list"
  ev_refcount :: int
  ev_next :: "event_ptr option"
  ev_next_free :: "event_ptr option"

text \<open>
  \<open>struct ALLEGRO_EVENT_QUEUE\<close>: the two vectors and the mutex. The mutex is the depth
  to which the running thread holds it (0: not held). The condition variable has no
  state of its own; the calls on it are logged.
\<close>

record event_queue =
  events :: "event_ptr list"
  sources :: "source_ptr list"
  mutex :: nat

text \<open>
  Every call that events.c makes into a collaborator (the event source, the condition
  variable, the destructor registry) is logged together with the queue as it stands at
  the moment of the call.
\<close>

datatype call =
    OnRegistration source_ptr
  | OnUnregistration source_ptr
  | ReleaseEvent event_ptr
  | RecycleEvent event_ptr
  | CondBroadcast
  | CondWait
  | CondTimedWait nat int
  | RegisterDestructor
  | UnregisterDestructor
  | CondDestroy
  | MutexDestroy

record world =
  queue :: event_queue
  heap :: "event_ptr \<Rightarrow> event"
  trace :: "(call \<times> event_queue) list"

datatype failure = Assertion_failed | Still_waiting

definition MAX_QUEUE_SIZE :: nat where
  "MAX_QUEUE_SIZE = 512"

definition log_call :: "call \<Rightarrow> world \<Rightarrow> world" where
  "log_call c w = w\<lparr>trace := trace w @ [(c, queue w)]\<rparr>"

subsection \<open>Collaborators\<close>

text \<open>
  Modelled from the spec: the vector \<open>_AL_VECTOR\<close> (vector.c, aintern_vector.h) is not
  part of the sources at hand. The spec calls the buffer an ordered sequence and the
  sources a membership list: a vector is a list, \<open>alloc_back\<close> followed by the store
  through the slot appends, \<open>delete_at\<close> removes one index and keeps the order of the
  rest, \<open>find_and_delete\<close> removes the first occurrence and tells whether there was one.
  Every \<open>ref\<close> in events.c is guarded by a test of the size, so the index is in range.
  Allocation failure is not modelled.
\<close>

definition al_vector_size :: "'a list \<Rightarrow> nat" where
  "al_vector_size vec = length vec"

definition al_vector_is_empty :: "'a list \<Rightarrow> bool" where
  "al_vector_is_empty vec = (vec = [])"

definition al_vector_is_nonempty :: "'a list \<Rightarrow> bool" where
  "al_vector_is_nonempty vec = (vec \<noteq> [])"

definition al_vector_ref :: "'a list \<Rightarrow> nat \<Rightarrow> 'a" where
  "al_vector_ref vec i = vec ! i"

definition al_vector_ref_front :: "'a list \<Rightarrow> 'a" where
  "al_vector_ref_front vec = al_vector_ref vec 0"

definition al_vector_ref_back :: "'a list \<Rightarrow> 'a" where
  "al_vector_ref_back vec = al_vector_ref vec (al_vector_size vec - 1)"

definition al_vector_alloc_back :: "'a list \<Rightarrow> 'a \<Rightarrow> 'a list" where
  "al_vector_alloc_back vec x = vec @ [x]"

definition al_vector_delete_at :: "'a list \<Rightarrow> nat \<Rightarrow> 'a list" where
  "al_vector_delete_at vec i = take i vec @ drop (Suc i) vec"

definition al_vector_contains :: "'a list \<Rightarrow> 'a \<Rightarrow> bool" where
  "al_vector_contains vec x = (x \<in> set vec)"

definition al_vector_find_and_delete :: "'a list \<Rightarrow> 'a \<Rightarrow> bool \<times> 'a list" where
  "al_vector_find_and_delete vec x =
     (if x \<in> set vec then (True, remove1 x vec) else (False, vec))"

text \<open>
  Modelled from the spec: the mutex and the condition variable (the platform's thread
  layer) are not part of the sources at hand. Locking raises the depth to which the
  running thread holds the mutex, unlocking lowers it; a broadcast wakes the waiters and
  changes nothing in the queue.
\<close>

definition al_mutex_lock :: "world \<Rightarrow> world" where
  "al_mutex_lock w = w\<lparr>queue := (queue w)\<lparr>mutex := Suc (mutex (queue w))\<rparr>\<rparr>"

definition al_mutex_unlock :: "world \<Rightarrow> world" where
  "al_mutex_unlock w =
     w\<lparr>queue := (queue w)\<lparr>mutex := (case mutex (queue w) of 0 \<Rightarrow> 0 | Suc d \<Rightarrow> d)\<rparr>\<rparr>"

definition al_cond_broadcast :: "world \<Rightarrow> world" where
  "al_cond_broadcast w = log_call CondBroadcast w"

text \<open>
  Modelled from the spec: the event source (evtsrc.c) is not part of the sources at
  hand. Its two hooks are notifications without a result. \<open>release\<close> decrements the
  reference count of the record and, when it reaches zero, hands the record back to its
  source, whose business it is from then on.
\<close>

definition al_event_source_on_registration_to_queue :: "source_ptr \<Rightarrow> world \<Rightarrow> world" where
  "al_event_source_on_registration_to_queue source w = log_call (OnRegistration source) w"

definition al_event_source_on_unregistration_from_queue :: "source_ptr \<Rightarrow> world \<Rightarrow> world" where
  "al_event_source_on_unregistration_from_queue source w = log_call (OnUnregistration source) w"

definition al_release_event :: "event_ptr \<Rightarrow> world \<Rightarrow> world" where
  "al_release_event event w =
     (let w1 = log_call (ReleaseEvent event) w;
          e = heap w1 event;
          w2 = w1\<lparr>heap := (heap w1)(event := e\<lparr>ev_refcount := ev_refcount e - 1\<rparr>)\<rparr>
      in if ev_refcount (heap w2 event) = 0 then log_call (RecycleEvent event) w2 else w2)"

subsection \<open>Creation, registration\<close>

text \<open>
  \<open>al_create_event_queue\<close>: \<open>malloc_ok\<close> says whether the allocation succeeded; the
  result \<open>None\<close> is the C function's NULL. The store of events and the log so far are
  handed in.
\<close>

definition al_create_event_queue ::
  "bool \<Rightarrow> (event_ptr \<Rightarrow> event) \<Rightarrow> (call \<times> event_queue) list \<Rightarrow> world option" where
  "al_create_event_queue malloc_ok h tr =
     (if malloc_ok then
        Some (log_call RegisterDestructor
          \<lparr>queue = \<lparr>events = [], sources = [], mutex = 0\<rparr>, heap = h, trace = tr\<rparr>)
      else None)"

definition al_register_event_source :: "source_ptr \<Rightarrow> world \<Rightarrow> world" where
  "al_register_event_source source w =
     (if al_vector_contains (sources (queue w)) source then w
      else
        let w1 = al_event_source_on_registration_to_queue source w
        in w1\<lparr>queue := (queue w1)\<lparr>sources := al_vector_alloc_back (sources (queue w1)) source\<rparr>\<rparr>)"

text \<open>
  The loop of \<open>al_unregister_event_source\<close>: \<open>i\<close> stays where it is after a deletion
  and advances otherwise. The event is released first and deleted from the vector next,
  as in the source.
\<close>

function unregister_loop :: "nat \<Rightarrow> source_ptr \<Rightarrow> world \<Rightarrow> world" where
  "unregister_loop i source w =
     (if i < al_vector_size (events (queue w)) then
        let event = al_vector_ref (events (queue w)) i
        in if ev_source (heap w event) = source then
             let w1 = al_release_event event w;
                 w2 = w1\<lparr>queue := (queue w1)\<lparr>events := al_vector_delete_at (events (queue w1)) i\<rparr>\<rparr>
             in unregister_loop i source w2
           else unregister_loop (i + 1) source w
      else w)"
  by pat_completeness auto
termination
  by (relation "measure (\<lambda>(i, source, w). length (events (queue w)) - i)")
     (auto simp: al_vector_size_def al_vector_delete_at_def al_release_event_def
                 log_call_def Let_def)

definition al_unregister_event_source :: "source_ptr \<Rightarrow> world \<Rightarrow> world" where
  "al_unregister_event_source source w =
     (case al_vector_find_and_delete (sources (queue w)) source of
        (found, srcs) \<Rightarrow>
          if \<not> found then w
          else
            let w1 = w\<lparr>queue := (queue w)\<lparr>sources := srcs\<rparr>\<rparr>;
                w2 = al_event_source_on_unregistration_from_queue source w1
            in unregister_loop 0 source w2)"

definition al_event_queue_is_empty :: "world \<Rightarrow> bool" where
  "al_event_queue_is_empty w = al_vector_is_empty (events (queue w))"

subsection \<open>Taking events out\<close>

definition get_next_event_if_any :: "bool \<Rightarrow> world \<Rightarrow> event_ptr option \<times> world" where
  "get_next_event_if_any delete w =
     (if al_vector_is_empty (events (queue w)) then (None, w)
      else
        let event = al_vector_ref_front (events (queue w))
        in (Some event,
            if delete then
              w\<lparr>queue := (queue w)\<lparr>events := al_vector_delete_at (events (queue w)) 0\<rparr>\<rparr>
            else w))"

text \<open>\<open>_al_copy_event\<close>: the record assigned to \<open>*dest\<close>.\<close>

definition al_copy_event :: "event \<Rightarrow> event" where
  "al_copy_event src = src\<lparr>ev_refcount := 0, ev_next := None, ev_next_free := None\<rparr>"

text \<open>
  The caller's record \<open>do_copy\<close> is an object of the caller's, apart from the records in
  the store: it is passed by value and handed back, \<open>None\<close> being the NULL pointer.
\<close>

definition get_peek_or_drop_next_event ::
  "event option \<Rightarrow> bool \<Rightarrow> world \<Rightarrow> bool \<times> event option \<times> world" where
  "get_peek_or_drop_next_event do_copy do_release w =
     (let w1 = al_mutex_lock w;
          (next_event, w2) = get_next_event_if_any do_release w1;
          w3 = al_mutex_unlock w2
      in case next_event of
           None \<Rightarrow> (False, do_copy, w3)
         | Some ev \<Rightarrow>
             let dest = (if do_copy \<noteq> None then Some (al_copy_event (heap w3 ev)) else do_copy);
                 w4 = (if do_release then al_release_event ev w3 else w3)
             in (True, dest, w4))"

definition al_get_next_event :: "event \<Rightarrow> world \<Rightarrow> bool \<times> event \<times> world" where
  "al_get_next_event ret_event w =
     (case get_peek_or_drop_next_event (Some ret_event) True w of
        (b, r, w') \<Rightarrow> (b, (case r of Some e \<Rightarrow> e | None \<Rightarrow> ret_event), w'))"

definition al_peek_next_event :: "event \<Rightarrow> world \<Rightarrow> bool \<times> event \<times> world" where
  "al_peek_next_event ret_event w =
     (case get_peek_or_drop_next_event (Some ret_event) False w of
        (b, r, w') \<Rightarrow> (b, (case r of Some e \<Rightarrow> e | None \<Rightarrow> ret_event), w'))"

definition al_drop_next_event :: "world \<Rightarrow> world" where
  "al_drop_next_event w = snd (snd (get_peek_or_drop_next_event None True w))"

function flush_loop :: "world \<Rightarrow> world" where
  "flush_loop w =
     (if al_vector_is_nonempty (events (queue w)) then
        let i = al_vector_size (events (queue w)) - 1;
            event = al_vector_ref (events (queue w)) i;
            w1 = w\<lparr>queue := (queue w)\<lparr>events := al_vector_delete_at (events (queue w)) i\<rparr>\<rparr>;
            w2 = al_mutex_unlock w1;
            w3 = al_release_event event w2;
            w4 = al_mutex_lock w3
        in flush_loop w4
      else w)"
  by pat_completeness auto
termination
  by (relation "measure (\<lambda>w. length (events (queue w)))")
     (auto simp: al_vector_size_def al_vector_delete_at_def al_vector_is_nonempty_def
                 al_release_event_def al_mutex_lock_def al_mutex_unlock_def
                 log_call_def Let_def)

definition al_flush_event_queue :: "world \<Rightarrow> world" where
  "al_flush_event_queue w = al_mutex_unlock (flush_loop (al_mutex_lock w))"

subsection \<open>Putting events in\<close>

definition al_event_queue_push_event :: "event_ptr \<Rightarrow> world \<Rightarrow> world" where
  "al_event_queue_push_event event w =
     (let w1 = al_mutex_lock w;
          w2 = (if al_vector_size (events (queue w1)) < MAX_QUEUE_SIZE then
                  let e = heap w1 event;
                      w1a = w1\<lparr>heap := (heap w1)(event := e\<lparr>ev_refcount := ev_refcount e + 1\<rparr>)\<rparr>;
                      w1b = w1a\<lparr>queue := (queue w1a)
                              \<lparr>events := al_vector_alloc_back (events (queue w1a)) event\<rparr>\<rparr>
                  in al_cond_broadcast w1b
                else w1)
      in al_mutex_unlock w2)"

subsection \<open>Destruction\<close>

function destroy_loop :: "world \<Rightarrow> world" where
  "destroy_loop w =
     (if al_vector_is_nonempty (sources (queue w)) then
        let slot = al_vector_ref_back (sources (queue w))
        in destroy_loop (al_unregister_event_source slot w)
      else w)"
  by pat_completeness auto
termination
proof (relation "measure (\<lambda>w. length (sources (queue w)))")
  show "wf (measure (\<lambda>w. length (sources (queue w))))"
    by simp
next
  fix w :: world and x :: source_ptr
  assume nonempty: "al_vector_is_nonempty (sources (queue w))"
    and x: "x = al_vector_ref_back (sources (queue w))"
  have loop: "sources (queue (unregister_loop i s v)) = sources (queue v)" for i s v
    by (induction i s v rule: unregister_loop.induct)
       (subst unregister_loop.simps,
        simp add: Let_def al_release_event_def log_call_def del: unregister_loop.simps)
  from nonempty have ne: "sources (queue w) \<noteq> []"
    by (simp add: al_vector_is_nonempty_def)
  then have mem: "x \<in> set (sources (queue w))"
    using x by (simp add: al_vector_ref_back_def al_vector_ref_def al_vector_size_def
        last_conv_nth [symmetric])
  then have "sources (queue (al_unregister_event_source x w)) = remove1 x (sources (queue w))"
    by (simp add: al_unregister_event_source_def al_vector_find_and_delete_def Let_def loop
        al_event_source_on_unregistration_from_queue_def log_call_def
        del: unregister_loop.simps)
  with mem ne show "(al_unregister_event_source x w, w) \<in> measure (\<lambda>w. length (sources (queue w)))"
    by (simp add: length_remove1)
qed

text \<open>
  \<open>al_destroy_event_queue\<close>. The two assertions after the loop are branches: a failed
  assertion aborts. \<open>_al_vector_free\<close> leaves a vector empty; the queue object itself
  is gone after \<open>_AL_FREE\<close>, what is returned is the rest of the world.
\<close>

definition al_destroy_event_queue :: "world \<Rightarrow> failure + world" where
  "al_destroy_event_queue w =
     (let w1 = log_call UnregisterDestructor w;
          w2 = destroy_loop w1
      in if \<not> al_vector_is_empty (events (queue w2)) then Inl Assertion_failed
         else if \<not> al_vector_is_empty (sources (queue w2)) then Inl Assertion_failed
         else
           let w3 = w2\<lparr>queue := (queue w2)\<lparr>events := [], sources := []\<rparr>\<rparr>;
               w4 = log_call CondDestroy w3;
               w5 = log_call MutexDestroy w4
           in Inr w5)"

subsection \<open>Waiting\<close>

primrec push_events :: "event_ptr list \<Rightarrow> world \<Rightarrow> world" where
  "push_events [] w = w"
| "push_events (e # es) w = push_events es (al_event_queue_push_event e w)"

text \<open>
  Modelled from the spec: \<open>_al_cond_wait\<close> and \<open>_al_cond_timedwait\<close> (the platform's
  thread layer) are not part of the sources at hand. A wait gives the mutex up, blocks,
  and takes the mutex again before it returns; while it blocks, event sources on other
  threads may push events. What happens during one wait is a \<open>wakeup\<close>: the events pushed
  meanwhile and the result of the call, \<open>-1\<close> for a timeout. The thread's future is the
  list of its wakeups; a wait with no wakeup left has not returned (\<open>Still_waiting\<close>).
\<close>

record wakeup =
  wk_pushed :: "event_ptr list"
  wk_result :: int

definition blocked :: "wakeup \<Rightarrow> world \<Rightarrow> world" where
  "blocked k w =
     (let d = mutex (queue w);
          w1 = w\<lparr>queue := (queue w)\<lparr>mutex := 0\<rparr>\<rparr>;
          w2 = push_events (wk_pushed k) w1
      in w2\<lparr>queue := (queue w2)\<lparr>mutex := d\<rparr>\<rparr>)"

definition al_cond_wait :: "wakeup \<Rightarrow> world \<Rightarrow> world" where
  "al_cond_wait k w = blocked k (log_call CondWait w)"

definition al_cond_timedwait :: "nat \<Rightarrow> wakeup \<Rightarrow> world \<Rightarrow> int \<times> world" where
  "al_cond_timedwait timeout k w =
     (wk_result k, blocked k (log_call (CondTimedWait timeout (wk_result k)) w))"

fun forever_loop :: "wakeup list \<Rightarrow> world \<Rightarrow> failure + world" where
  "forever_loop [] w =
     (if al_vector_is_empty (events (queue w)) then Inl Still_waiting else Inr w)"
| "forever_loop (k # ks) w =
     (if al_vector_is_empty (events (queue w)) then forever_loop ks (al_cond_wait k w)
      else Inr w)"

definition wait_on_queue_forever ::
  "event option \<Rightarrow> wakeup list \<Rightarrow> world \<Rightarrow> failure + (event option \<times> world)" where
  "wait_on_queue_forever ret_event ks w =
     (case forever_loop ks (al_mutex_lock w) of
        Inl f \<Rightarrow> Inl f
      | Inr w1 \<Rightarrow>
          let (next_event, w2) =
                (if ret_event \<noteq> None then get_next_event_if_any True w1 else (None, w1));
              w3 = al_mutex_unlock w2
          in if ret_event \<noteq> None then
               (case next_event of
                  None \<Rightarrow> Inl Assertion_failed
                | Some ev \<Rightarrow> Inr (Some (al_copy_event (heap w3 ev)), al_release_event ev w3))
             else Inr (ret_event, w3))"

fun timed_loop :: "nat \<Rightarrow> wakeup list \<Rightarrow> int \<Rightarrow> world \<Rightarrow> failure + (int \<times> world)" where
  "timed_loop timeout [] result w =
     (if al_vector_is_empty (events (queue w)) \<and> result \<noteq> - 1 then Inl Still_waiting
      else Inr (result, w))"
| "timed_loop timeout (k # ks) result w =
     (if al_vector_is_empty (events (queue w)) \<and> result \<noteq> - 1 then
        (case al_cond_timedwait timeout k w of (result', w') \<Rightarrow> timed_loop timeout ks result' w')
      else Inr (result, w))"

text \<open>
  \<open>wait_on_queue_timed\<close>: \<open>now\<close> is what the one call of \<open>al_current_time\<close> returns, an
  \<open>unsigned long\<close>; \<open>msecs\<close> is a \<open>long\<close> of the same width, and the sum wraps.
\<close>

definition wait_on_queue_timed ::
  "'a::len word \<Rightarrow> event option \<Rightarrow> 'a word \<Rightarrow> wakeup list \<Rightarrow> world
     \<Rightarrow> failure + (bool \<times> event option \<times> world)" where
  "wait_on_queue_timed now ret_event msecs ks w =
     (let timeout = now + msecs
      in case timed_loop (unat timeout) ks 0 (al_mutex_lock w) of
           Inl f \<Rightarrow> Inl f
         | Inr (result, w1) \<Rightarrow>
             let timed_out = (result = - 1);
                 (next_event, w2) =
                   (if result = - 1 then (None, w1)
                    else if ret_event \<noteq> None then get_next_event_if_any True w1
                    else (None, w1));
                 w3 = al_mutex_unlock w2
             in if timed_out then Inr (False, ret_event, w3)
                else if ret_event \<noteq> None then
                  (case next_event of
                     None \<Rightarrow> Inl Assertion_failed
                   | Some ev \<Rightarrow>
                       Inr (True, Some (al_copy_event (heap w3 ev)), al_release_event ev w3))
                else Inr (True, ret_event, w3))"

text \<open>
  \<open>al_wait_for_event\<close>. The constant ALLEGRO_WAIT_FOREVER is declared outside the
  sources at hand and is the parameter \<open>wait_forever\<close>.
\<close>

definition al_wait_for_event ::
  "'a::len word \<Rightarrow> 'a word \<Rightarrow> event option \<Rightarrow> 'a word \<Rightarrow> wakeup list \<Rightarrow> world
     \<Rightarrow> failure + (bool \<times> event option \<times> world)" where
  "al_wait_for_event wait_forever now ret_event msecs ks w =
     (if \<not> (msecs = wait_forever \<or> 0 \<le> sint msecs) then Inl Assertion_failed
      else if msecs = wait_forever then
        (case wait_on_queue_forever ret_event ks w of
           Inl f \<Rightarrow> Inl f
         | Inr (r, w') \<Rightarrow> Inr (True, r, w'))
      else wait_on_queue_timed now ret_event msecs ks w)"

subsection \<open>Scenarios and observations\<close>

text \<open>
  A caller that calls \<open>al_get_next_event\<close> \<open>n\<close> times with one record of its own, and
  one that drains the queue: it calls until the answer is false and keeps what it got.
  \<open>drain\<close> has the number of calls it may make as fuel and returns \<open>None\<close> when that
  runs out.
\<close>

fun get_next_events :: "nat \<Rightarrow> event \<Rightarrow> world \<Rightarrow> (bool \<times> event) list \<times> world" where
  "get_next_events 0 r w = ([], w)"
| "get_next_events (Suc n) r w =
     (case al_get_next_event r w of
        (b, r', w') \<Rightarrow>
          (case get_next_events n r' w' of (rs, w'') \<Rightarrow> ((b, r') # rs, w'')))"

fun drain :: "nat \<Rightarrow> event \<Rightarrow> world \<Rightarrow> (event list \<times> world) option" where
  "drain 0 r w = None"
| "drain (Suc n) r w =
     (case al_get_next_event r w of
        (b, r', w') \<Rightarrow>
          if b then
            (case drain n r' w' of
               None \<Rightarrow> None
             | Some (rs, w'') \<Rightarrow> Some (r' # rs, w''))
          else Some ([], w'))"

text \<open>
  The calls logged between two worlds, the events released by a stretch of the log, and
  whether a stretch of the log holds a timed wait that reported a timeout.
\<close>

definition calls_since :: "world \<Rightarrow> world \<Rightarrow> (call \<times> event_queue) list" where
  "calls_since w w' = drop (length (trace w)) (trace w')"

fun released :: "(call \<times> event_queue) list \<Rightarrow> event_ptr list" where
  "released [] = []"
| "released ((ReleaseEvent p, q) # tr) = p # released tr"
| "released (c # tr) = released tr"

fun timeout_reported :: "(call \<times> event_queue) list \<Rightarrow> bool" where
  "timeout_reported [] = False"
| "timeout_reported ((CondTimedWait d x, q) # tr) = (x = - 1 \<or> timeout_reported tr)"
| "timeout_reported (c # tr) = timeout_reported tr"

definition queue_bound :: "world \<Rightarrow> bool" where
  "queue_bound w = (length (events (queue w)) \<le> MAX_QUEUE_SIZE)"

text \<open>
  For the proofs: the events that the loop of unregister releases from index \<open>i\<close> on,
  and what the loop has done when it ends.
\<close>

definition purged :: "source_ptr \<Rightarrow> world \<Rightarrow> nat \<Rightarrow> event_ptr list" where
  "purged s w i = filter (\<lambda>p. ev_source (heap w p) = s) (drop i (events (queue w)))"

definition unregister_loop_post :: "nat \<Rightarrow> source_ptr \<Rightarrow> world \<Rightarrow> world \<Rightarrow> bool" where
  "unregister_loop_post i s w w' =
     ((\<exists>tr. trace w' = trace w @ tr \<and> released tr = purged s w i
          \<and> (\<forall>(c, q) \<in> set tr. \<exists>p. c = ReleaseEvent p \<or> c = RecycleEvent p))
      \<and> events (queue w') =
           take i (events (queue w)) @
           filter (\<lambda>p. ev_source (heap w p) \<noteq> s) (drop i (events (queue w)))
      \<and> sources (queue w') = sources (queue w)
      \<and> mutex (queue w') = mutex (queue w)
      \<and> (\<forall>p. heap w' p =
            (heap w p)\<lparr>ev_refcount := ev_refcount (heap w p) - int (count_list (purged s w i) p)\<rparr>))"

text \<open>
  Sample data: a blank record, a store in which the record at an odd address comes from
  source 3 and the one at an even address from source 4, and a world over that store.
\<close>

definition blank_event :: event where
  "blank_event =
     \<lparr>ev_type = 0, ev_source = 0, ev_timestamp = 0, ev_payload = [], ev_refcount = 0,
      ev_next = None, ev_next_free = None\<rparr>"

definition sample_heap :: "event_ptr \<Rightarrow> event" where
  "sample_heap p = blank_event\<lparr>ev_type := p, ev_source := (if odd p then 3 else 4)\<rparr>"

definition sample_world :: "event_ptr list \<Rightarrow> source_ptr list \<Rightarrow> world" where
  "sample_world evs srcs =
     \<lparr>queue = \<lparr>events = evs, sources = srcs, mutex = 0\<rparr>, heap = sample_heap, trace = []\<rparr>"

text \<open>
  Whether every timed wait in a stretch of the log was called with the deadline \<open>d\<close>,
  and, for the proofs, what the loop of the timed wait has done when it ends.
\<close>

fun deadline_always :: "nat \<Rightarrow> (call \<times> event_queue) list \<Rightarrow> bool" where
  "deadline_always d [] = True"
| "deadline_always d ((CondTimedWait d' x, q) # tr) = (d' = d \<and> deadline_always d tr)"
| "deadline_always d (c # tr) = deadline_always d tr"

definition timed_loop_post ::
  "nat \<Rightarrow> wakeup list \<Rightarrow> world \<Rightarrow> int \<Rightarrow> world \<Rightarrow> bool" where
  "timed_loop_post d ks w res' w' =
     ((\<exists>tr. trace w' = trace w @ tr \<and> deadline_always d tr
          \<and> released tr = [] \<and> (timeout_reported tr \<longleftrightarrow> res' = - 1))
      \<and> sources (queue w') = sources (queue w)
      \<and> mutex (queue w') = mutex (queue w)
      \<and> (res' \<noteq> - 1 \<longrightarrow> events (queue w') \<noteq> [])
      \<and> (res' = - 1 \<longrightarrow>
           (\<exists>k \<in> set ks. wk_result k = - 1
              \<and> events (queue w') = events (queue (push_events (wk_pushed k) w))
              \<and> heap w' = heap (push_events (wk_pushed k) w))))"

section \<open>Lemmas\<close>

declare unregister_loop.simps [simp del] flush_loop.simps [simp del] destroy_loop.simps [simp del]

lemma log_call_simps [simp]:
  "queue (log_call c w) = queue w"
  "heap (log_call c w) = heap w"
  "trace (log_call c w) = trace w @ [(c, queue w)]"
  by (simp_all add: log_call_def)

lemma al_mutex_lock_simps [simp]:
  "events (queue (al_mutex_lock w)) = events (queue w)"
  "sources (queue (al_mutex_lock w)) = sources (queue w)"
  "mutex (queue (al_mutex_lock w)) = Suc (mutex (queue w))"
  "heap (al_mutex_lock w) = heap w"
  "trace (al_mutex_lock w) = trace w"
  by (simp_all add: al_mutex_lock_def)

lemma al_mutex_unlock_simps [simp]:
  "events (queue (al_mutex_unlock w)) = events (queue w)"
  "sources (queue (al_mutex_unlock w)) = sources (queue w)"
  "mutex (queue (al_mutex_unlock w)) = mutex (queue w) - 1"
  "heap (al_mutex_unlock w) = heap w"
  "trace (al_mutex_unlock w) = trace w"
  by (simp_all add: al_mutex_unlock_def split: nat.split)

lemma al_mutex_unlock_lock [simp]: "al_mutex_unlock (al_mutex_lock w) = w"
  by (simp add: al_mutex_unlock_def al_mutex_lock_def)

lemma al_release_event_simps [simp]:
  "queue (al_release_event p w) = queue w"
  "heap (al_release_event p w) = (heap w)(p := (heap w p)\<lparr>ev_refcount := ev_refcount (heap w p) - 1\<rparr>)"
  "trace (al_release_event p w) =
     trace w @ (ReleaseEvent p, queue w) #
       (if ev_refcount (heap w p) = 1 then [(RecycleEvent p, queue w)] else [])"
  by (simp_all add: al_release_event_def Let_def)

lemma released_append [simp]: "released (xs @ ys) = released xs @ released ys"
  by (induction xs rule: released.induct) simp_all

lemma timeout_reported_append [simp]:
  "timeout_reported (xs @ ys) = (timeout_reported xs \<or> timeout_reported ys)"
  by (induction xs rule: timeout_reported.induct) simp_all

lemma calls_since_extend:
  "trace w' = trace w @ tr \<Longrightarrow> calls_since w w' = tr"
  by (simp add: calls_since_def)

lemma calls_since_self [simp]: "calls_since w w = []"
  by (simp add: calls_since_def)

text \<open>The loop of unregister, one case at a time.\<close>

lemma unregister_loop_done:
  "\<not> i < length (events (queue w)) \<Longrightarrow> unregister_loop i s w = w"
  by (subst unregister_loop.simps) (simp add: al_vector_size_def)

lemma unregister_loop_skip:
  "i < length (events (queue w)) \<Longrightarrow> ev_source (heap w (events (queue w) ! i)) \<noteq> s \<Longrightarrow>
   unregister_loop i s w = unregister_loop (Suc i) s w"
  by (subst unregister_loop.simps) (simp add: al_vector_size_def al_vector_ref_def)

lemma unregister_loop_hit:
  "i < length (events (queue w)) \<Longrightarrow> ev_source (heap w (events (queue w) ! i)) = s \<Longrightarrow>
   unregister_loop i s w =
     unregister_loop i s
       ((al_release_event (events (queue w) ! i) w)
          \<lparr>queue := (queue w)\<lparr>events := take i (events (queue w)) @ drop (Suc i) (events (queue w))\<rparr>\<rparr>)"
  by (subst unregister_loop.simps)
     (simp add: al_vector_size_def al_vector_ref_def al_vector_delete_at_def Let_def)


lemma unregister_loop_post_skip:
  assumes inrange: "i < length (events (queue w))"
    and miss: "ev_source (heap w (events (queue w) ! i)) \<noteq> s"
    and ih: "unregister_loop_post (Suc i) s w w'"
  shows "unregister_loop_post i s w w'"
proof -
  have d: "drop i (events (queue w)) = events (queue w) ! i # drop (Suc i) (events (queue w))"
    using inrange by (simp add: Cons_nth_drop_Suc)
  have p: "purged s w i = purged s w (Suc i)"
    using miss by (simp add: purged_def d)
  show ?thesis
    using ih miss inrange
    by (simp add: unregister_loop_post_def p d take_Suc_conv_app_nth)
qed

lemma unregister_loop_post_hit:
  assumes inrange: "i < length (events (queue w))"
    and hit: "ev_source (heap w (events (queue w) ! i)) = s"
    and w2: "events (queue w2) = take i (events (queue w)) @ drop (Suc i) (events (queue w))"
      "sources (queue w2) = sources (queue w)" "mutex (queue w2) = mutex (queue w)"
      "heap w2 = (heap w)(events (queue w) ! i :=
          (heap w (events (queue w) ! i))
            \<lparr>ev_refcount := ev_refcount (heap w (events (queue w) ! i)) - 1\<rparr>)"
      "trace w2 = trace w @ (ReleaseEvent (events (queue w) ! i), queue w) #
          (if ev_refcount (heap w (events (queue w) ! i)) = 1
           then [(RecycleEvent (events (queue w) ! i), queue w)] else [])"
    and ih: "unregister_loop_post i s w2 w'"
  shows "unregister_loop_post i s w w'"
proof -
  let ?evs = "events (queue w)"
  let ?p = "?evs ! i"
  have d: "drop i ?evs = ?p # drop (Suc i) ?evs"
    using inrange by (simp add: Cons_nth_drop_Suc)
  have src: "ev_source (heap w2 p) = ev_source (heap w p)" for p
    by (simp add: w2(4))
  have d2: "drop i (events (queue w2)) = drop (Suc i) ?evs"
    using inrange by (simp add: w2(1))
  have t2: "take i (events (queue w2)) = take i ?evs"
    using inrange by (simp add: w2(1))
  have p2: "purged s w2 i = purged s w (Suc i)"
    by (simp add: purged_def d2 src)
  have p: "purged s w i = ?p # purged s w (Suc i)"
    using hit by (simp add: purged_def d)
  from ih obtain tr where tr: "trace w' = trace w2 @ tr" "released tr = purged s w (Suc i)"
    "\<forall>(c, q) \<in> set tr. \<exists>p. c = ReleaseEvent p \<or> c = RecycleEvent p"
    unfolding unregister_loop_post_def p2 by blast
  let ?tr = "(ReleaseEvent ?p, queue w) #
       (if ev_refcount (heap w ?p) = 1 then [(RecycleEvent ?p, queue w)] else []) @ tr"
  have "trace w' = trace w @ ?tr"
    using tr(1) by (simp add: w2(5))
  moreover have "released ?tr = purged s w i"
    using tr(2) by (simp add: p)
  moreover have "\<forall>(c, q) \<in> set ?tr. \<exists>p. c = ReleaseEvent p \<or> c = RecycleEvent p"
    using tr(3) by auto
  ultimately have A: "\<exists>tr. trace w' = trace w @ tr \<and> released tr = purged s w i
          \<and> (\<forall>(c, q) \<in> set tr. \<exists>p. c = ReleaseEvent p \<or> c = RecycleEvent p)"
    by blast
  have B: "events (queue w') =
      take i ?evs @ filter (\<lambda>p. ev_source (heap w p) \<noteq> s) (drop i ?evs)"
    using ih hit unfolding unregister_loop_post_def d2 t2 by (simp add: d src)
  have C: "sources (queue w') = sources (queue w)" "mutex (queue w') = mutex (queue w)"
    using ih unfolding unregister_loop_post_def by (simp_all add: w2(2,3))
  have D: "heap w' q =
      (heap w q)\<lparr>ev_refcount := ev_refcount (heap w q) - int (count_list (purged s w i) q)\<rparr>" for q
  proof -
    have "heap w' q =
      (heap w2 q)\<lparr>ev_refcount := ev_refcount (heap w2 q) - int (count_list (purged s w (Suc i)) q)\<rparr>"
      using ih unfolding unregister_loop_post_def p2 by blast
    then show ?thesis
      by (simp add: w2(4) p)
  qed
  show ?thesis
    unfolding unregister_loop_post_def using A B C D by blast
qed

lemma unregister_loop_spec: "unregister_loop_post i s w (unregister_loop i s w)"
proof (induction i s w rule: unregister_loop.induct)
  case (1 i s w)
  let ?evs = "events (queue w)"
  show ?case
  proof (cases "i < length ?evs")
    case False
    then show ?thesis
      by (simp add: unregister_loop_done unregister_loop_post_def purged_def)
  next
    case inrange: True
    show ?thesis
    proof (cases "ev_source (heap w (?evs ! i)) = s")
      case False
      have "unregister_loop_post (Suc i) s w (unregister_loop (Suc i) s w)"
        using "1.IH"(2) [OF _ refl] inrange False
        by (simp add: al_vector_size_def al_vector_ref_def)
      then show ?thesis
        using unregister_loop_post_skip [OF inrange False]
        by (simp add: unregister_loop_skip [OF inrange False])
    next
      case True
      define w2 where "w2 = (al_release_event (?evs ! i) w)
          \<lparr>queue := (queue w)\<lparr>events := take i ?evs @ drop (Suc i) ?evs\<rparr>\<rparr>"
      have ih: "unregister_loop_post i s w2 (unregister_loop i s w2)"
        using "1.IH"(1) [OF _ refl _ refl refl] inrange True
        by (simp add: al_vector_size_def al_vector_ref_def al_vector_delete_at_def w2_def)
      have "unregister_loop_post i s w (unregister_loop i s w2)"
        by (rule unregister_loop_post_hit [OF inrange True _ _ _ _ _ ih])
           (simp_all add: w2_def)
      then show ?thesis
        by (simp add: unregister_loop_hit [OF inrange True] w2_def)
    qed
  qed
qed

text \<open>Push, and the three ways of taking the head.\<close>

lemma push_full:
  "MAX_QUEUE_SIZE \<le> length (events (queue w)) \<Longrightarrow> al_event_queue_push_event p w = w"
  by (simp add: al_event_queue_push_event_def al_vector_size_def Let_def)

lemma push_simps:
  "events (queue (al_event_queue_push_event p w)) =
     (if length (events (queue w)) < MAX_QUEUE_SIZE then events (queue w) @ [p]
      else events (queue w))"
  "sources (queue (al_event_queue_push_event p w)) = sources (queue w)"
  "mutex (queue (al_event_queue_push_event p w)) = mutex (queue w)"
  "heap (al_event_queue_push_event p w) =
     (if length (events (queue w)) < MAX_QUEUE_SIZE
      then (heap w)(p := (heap w p)\<lparr>ev_refcount := ev_refcount (heap w p) + 1\<rparr>) else heap w)"
  "trace (al_event_queue_push_event p w) =
     (if length (events (queue w)) < MAX_QUEUE_SIZE
      then trace w @ [(CondBroadcast,
             (queue w)\<lparr>events := events (queue w) @ [p], mutex := Suc (mutex (queue w))\<rparr>)]
      else trace w)"
  by (simp_all add: al_event_queue_push_event_def al_vector_size_def Let_def
        al_cond_broadcast_def al_vector_alloc_back_def al_mutex_lock_def)

lemma gpd_empty:
  "events (queue w) = [] \<Longrightarrow> get_peek_or_drop_next_event c r w = (False, c, w)"
  by (simp add: get_peek_or_drop_next_event_def get_next_event_if_any_def
      al_vector_is_empty_def Let_def)

lemma gpd_peek:
  "events (queue w) = p # ps \<Longrightarrow>
   get_peek_or_drop_next_event c False w =
     (True, (if c \<noteq> None then Some (al_copy_event (heap w p)) else c), w)"
  by (simp add: get_peek_or_drop_next_event_def get_next_event_if_any_def
      al_vector_is_empty_def al_vector_ref_front_def al_vector_ref_def Let_def)

lemma gpd_get:
  "events (queue w) = p # ps \<Longrightarrow>
   get_peek_or_drop_next_event c True w =
     (True, (if c \<noteq> None then Some (al_copy_event (heap w p)) else c),
      al_release_event p (w\<lparr>queue := (queue w)\<lparr>events := ps\<rparr>\<rparr>))"
  by (simp add: get_peek_or_drop_next_event_def get_next_event_if_any_def
      al_vector_is_empty_def al_vector_ref_front_def al_vector_ref_def
      al_vector_delete_at_def Let_def al_mutex_lock_def al_mutex_unlock_def)

lemma get_empty:
  "events (queue w) = [] \<Longrightarrow> al_get_next_event r w = (False, r, w)"
  by (simp add: al_get_next_event_def gpd_empty)

lemma get_cons:
  "events (queue w) = p # ps \<Longrightarrow>
   al_get_next_event r w =
     (True, al_copy_event (heap w p), al_release_event p (w\<lparr>queue := (queue w)\<lparr>events := ps\<rparr>\<rparr>))"
  by (simp add: al_get_next_event_def gpd_get)

lemma peek_empty:
  "events (queue w) = [] \<Longrightarrow> al_peek_next_event r w = (False, r, w)"
  by (simp add: al_peek_next_event_def gpd_empty)

lemma peek_cons:
  "events (queue w) = p # ps \<Longrightarrow> al_peek_next_event r w = (True, al_copy_event (heap w p), w)"
  by (simp add: al_peek_next_event_def gpd_peek)

lemma drop_empty: "events (queue w) = [] \<Longrightarrow> al_drop_next_event w = w"
  by (simp add: al_drop_next_event_def gpd_empty)

lemma drop_cons:
  "events (queue w) = p # ps \<Longrightarrow>
   al_drop_next_event w = al_release_event p (w\<lparr>queue := (queue w)\<lparr>events := ps\<rparr>\<rparr>)"
  by (simp add: al_drop_next_event_def gpd_get)

lemma al_copy_event_refcount [simp]:
  "al_copy_event (e\<lparr>ev_refcount := n\<rparr>) = al_copy_event e"
  by (simp add: al_copy_event_def)

text \<open>A run of pushes.\<close>

lemma push_events_spec:
  "events (queue (push_events es w)) =
     events (queue w) @ take (MAX_QUEUE_SIZE - length (events (queue w))) es
   \<and> sources (queue (push_events es w)) = sources (queue w)
   \<and> mutex (queue (push_events es w)) = mutex (queue w)
   \<and> (\<forall>p. heap (push_events es w) p =
        (heap w p)\<lparr>ev_refcount := ev_refcount (heap w p) +
           int (count_list (take (MAX_QUEUE_SIZE - length (events (queue w))) es) p)\<rparr>)"
proof (induction es arbitrary: w)
  case Nil
  show ?case by simp
next
  case (Cons e es)
  show ?case
  proof (cases "length (events (queue w)) < MAX_QUEUE_SIZE")
    case True
    then obtain k where k: "MAX_QUEUE_SIZE - length (events (queue w)) = Suc k"
      by (cases "MAX_QUEUE_SIZE - length (events (queue w))") auto
    then have k': "MAX_QUEUE_SIZE - Suc (length (events (queue w))) = k"
      by simp
    show ?thesis
      using Cons.IH [of "al_event_queue_push_event e w"] True
      by (simp add: push_simps k k')
  next
    case False
    then show ?thesis
      using Cons.IH [of w] by (simp add: push_full)
  qed
qed

lemma push_events_trace:
  "\<exists>tr. trace (push_events es w) = trace w @ tr \<and> (\<forall>(c, q) \<in> set tr. c = CondBroadcast)"
proof (induction es arbitrary: w)
  case Nil
  show ?case by simp
next
  case (Cons e es)
  obtain tr where tr: "trace (push_events es (al_event_queue_push_event e w)) =
      trace (al_event_queue_push_event e w) @ tr" "\<forall>(c, q) \<in> set tr. c = CondBroadcast"
    using Cons.IH by blast
  show ?case
  proof (cases "length (events (queue w)) < MAX_QUEUE_SIZE")
    case True
    let ?tr = "(CondBroadcast,
             (queue w)\<lparr>events := events (queue w) @ [e], mutex := Suc (mutex (queue w))\<rparr>) # tr"
    have "trace (push_events (e # es) w) = trace w @ ?tr"
      using tr(1) True by (simp add: push_simps)
    moreover have "\<forall>(c, q) \<in> set ?tr. c = CondBroadcast"
      using tr(2) by simp
    ultimately show ?thesis by blast
  next
    case False
    then show ?thesis using tr by (simp add: push_simps)
  qed
qed

text \<open>A run of gets, and draining.\<close>

lemma get_next_events_spec:
  "n \<le> length (events (queue w)) \<Longrightarrow>
   fst (get_next_events n r w) =
     map (\<lambda>p. (True, al_copy_event (heap w p))) (take n (events (queue w)))
   \<and> events (queue (snd (get_next_events n r w))) = drop n (events (queue w))"
proof (induction n arbitrary: r w)
  case 0
  show ?case by simp
next
  case (Suc n)
  then obtain p ps where evs: "events (queue w) = p # ps"
    by (cases "events (queue w)") auto
  let ?w' = "al_release_event p (w\<lparr>queue := (queue w)\<lparr>events := ps\<rparr>\<rparr>)"
  have n: "n \<le> length (events (queue ?w'))"
    using Suc.prems evs by simp
  have copy: "al_copy_event (heap ?w' q) = al_copy_event (heap w q)" for q
    by simp
  show ?case
    using Suc.IH [OF n, of "al_copy_event (heap w p)"]
    by (simp add: get_cons [OF evs] split_beta evs copy del: al_release_event_simps(2))
qed

lemma drain_spec:
  "length (events (queue w)) < n \<Longrightarrow>
   \<exists>w'. drain n r w = Some (map (\<lambda>p. al_copy_event (heap w p)) (events (queue w)), w')
      \<and> events (queue w') = []"
proof (induction n arbitrary: r w)
  case 0
  then show ?case by simp
next
  case (Suc n)
  show ?case
  proof (cases "events (queue w)")
    case Nil
    then show ?thesis by (simp add: get_empty)
  next
    case (Cons p ps)
    let ?w' = "al_release_event p (w\<lparr>queue := (queue w)\<lparr>events := ps\<rparr>\<rparr>)"
    have n: "length (events (queue ?w')) < n"
      using Suc.prems Cons by simp
    have copy: "al_copy_event (heap ?w' q) = al_copy_event (heap w q)" for q
      by simp
    obtain w'' where "drain n (al_copy_event (heap w p)) ?w' =
        Some (map (\<lambda>q. al_copy_event (heap ?w' q)) (events (queue ?w')), w'')"
      "events (queue w'') = []"
      using Suc.IH [OF n] by blast
    then show ?thesis
      by (simp add: get_cons [OF Cons] Cons copy del: al_release_event_simps(2))
  qed
qed

text \<open>The loop of flush.\<close>

lemma flush_loop_nil: "events (queue w) = [] \<Longrightarrow> flush_loop w = w"
  by (subst flush_loop.simps) (simp add: al_vector_is_nonempty_def)

lemma flush_loop_snoc:
  "events (queue w) = xs @ [p] \<Longrightarrow>
   flush_loop w =
     flush_loop (al_mutex_lock (al_release_event p
       (al_mutex_unlock (w\<lparr>queue := (queue w)\<lparr>events := xs\<rparr>\<rparr>))))"
  by (subst flush_loop.simps)
     (simp add: al_vector_is_nonempty_def al_vector_size_def al_vector_ref_def
        al_vector_delete_at_def Let_def)

lemma flush_loop_spec:
  "events (queue w) = xs \<Longrightarrow> mutex (queue w) = Suc d \<Longrightarrow>
   (\<exists>tr. trace (flush_loop w) = trace w @ tr \<and> released tr = rev xs
        \<and> (\<forall>(c, q) \<in> set tr. mutex q = d))
   \<and> events (queue (flush_loop w)) = []
   \<and> sources (queue (flush_loop w)) = sources (queue w)
   \<and> mutex (queue (flush_loop w)) = Suc d
   \<and> (\<forall>q. heap (flush_loop w) q =
        (heap w q)\<lparr>ev_refcount := ev_refcount (heap w q) - int (count_list xs q)\<rparr>)"
proof (induction xs arbitrary: w rule: rev_induct)
  case Nil
  then show ?case by (simp add: flush_loop_nil)
next
  case (snoc p xs)
  define w1 where "w1 = al_mutex_lock (al_release_event p
       (al_mutex_unlock (w\<lparr>queue := (queue w)\<lparr>events := xs\<rparr>\<rparr>)))"
  have fl: "flush_loop w = flush_loop w1"
    using flush_loop_snoc [OF snoc.prems(1)] by (simp add: w1_def)
  have w1: "events (queue w1) = xs" "mutex (queue w1) = Suc d"
    "sources (queue w1) = sources (queue w)"
    "heap w1 = (heap w)(p := (heap w p)\<lparr>ev_refcount := ev_refcount (heap w p) - 1\<rparr>)"
    "trace w1 = trace w @ (ReleaseEvent p, (queue w)\<lparr>events := xs, mutex := d\<rparr>) #
       (if ev_refcount (heap w p) = 1
        then [(RecycleEvent p, (queue w)\<lparr>events := xs, mutex := d\<rparr>)] else [])"
    using snoc.prems(2) by (simp_all add: w1_def al_mutex_unlock_def)
  note ih = snoc.IH [OF w1(1,2)]
  from ih obtain tr where tr: "trace (flush_loop w1) = trace w1 @ tr" "released tr = rev xs"
    "\<forall>(c, q) \<in> set tr. mutex q = d"
    by blast
  let ?q = "(queue w)\<lparr>events := xs, mutex := d\<rparr>"
  let ?tr = "(ReleaseEvent p, ?q) #
       (if ev_refcount (heap w p) = 1 then [(RecycleEvent p, ?q)] else []) @ tr"
  have "trace (flush_loop w) = trace w @ ?tr"
    using tr(1) by (simp add: fl w1(5))
  moreover have "released ?tr = rev (xs @ [p])"
    using tr(2) by simp
  moreover have "\<forall>(c, q) \<in> set ?tr. mutex q = d"
    using tr(3) by auto
  ultimately have A: "\<exists>tr. trace (flush_loop w) = trace w @ tr \<and> released tr = rev (xs @ [p])
        \<and> (\<forall>(c, q) \<in> set tr. mutex q = d)"
    by blast
  have B: "events (queue (flush_loop w)) = []" "sources (queue (flush_loop w)) = sources (queue w)"
    "mutex (queue (flush_loop w)) = Suc d"
    using ih by (simp_all add: fl w1(3))
  have C: "heap (flush_loop w) q =
        (heap w q)\<lparr>ev_refcount := ev_refcount (heap w q) - int (count_list (xs @ [p]) q)\<rparr>" for q
  proof -
    have "heap (flush_loop w) q =
        (heap w1 q)\<lparr>ev_refcount := ev_refcount (heap w1 q) - int (count_list xs q)\<rparr>"
      using ih by (simp add: fl)
    then show ?thesis by (simp add: w1(4))
  qed
  show ?case using A B C by blast
qed

text \<open>Unregistering, as a whole.\<close>

lemma unregister_not_member:
  "source \<notin> set (sources (queue w)) \<Longrightarrow> al_unregister_event_source source w = w"
  by (simp add: al_unregister_event_source_def al_vector_find_and_delete_def)

lemma unregister_member:
  assumes "source \<in> set (sources (queue w))"
  shows "al_unregister_event_source source w =
           unregister_loop 0 source
             (log_call (OnUnregistration source)
               (w\<lparr>queue := (queue w)\<lparr>sources := remove1 source (sources (queue w))\<rparr>\<rparr>))"
  using assms
  by (simp add: al_unregister_event_source_def al_vector_find_and_delete_def Let_def
      al_event_source_on_unregistration_from_queue_def)

lemma unregister_spec:
  assumes mem: "source \<in> set (sources (queue w))"
  shows "(\<exists>q tr. calls_since w (al_unregister_event_source source w) =
                   (OnUnregistration source, q) # tr
              \<and> released tr = filter (\<lambda>p. ev_source (heap w p) = source) (events (queue w))
              \<and> (\<forall>(c, q') \<in> set tr. \<exists>p. c = ReleaseEvent p \<or> c = RecycleEvent p))
         \<and> events (queue (al_unregister_event_source source w)) =
             filter (\<lambda>p. ev_source (heap w p) \<noteq> source) (events (queue w))
         \<and> sources (queue (al_unregister_event_source source w)) =
             remove1 source (sources (queue w))
         \<and> mutex (queue (al_unregister_event_source source w)) = mutex (queue w)
         \<and> (\<forall>p. heap (al_unregister_event_source source w) p =
              (heap w p)\<lparr>ev_refcount := ev_refcount (heap w p) -
                 int (count_list
                   (filter (\<lambda>p. ev_source (heap w p) = source) (events (queue w))) p)\<rparr>)"
proof -
  define w1 where "w1 = log_call (OnUnregistration source)
               (w\<lparr>queue := (queue w)\<lparr>sources := remove1 source (sources (queue w))\<rparr>\<rparr>)"
  have u: "al_unregister_event_source source w = unregister_loop 0 source w1"
    by (simp add: unregister_member [OF mem] w1_def)
  have w1: "events (queue w1) = events (queue w)" "heap w1 = heap w"
    "sources (queue w1) = remove1 source (sources (queue w))" "mutex (queue w1) = mutex (queue w)"
    "trace w1 = trace w @ [(OnUnregistration source,
        (queue w)\<lparr>sources := remove1 source (sources (queue w))\<rparr>)]"
    by (simp_all add: w1_def)
  have pg: "purged source w1 0 = filter (\<lambda>p. ev_source (heap w p) = source) (events (queue w))"
    by (simp add: purged_def w1)
  note post = unregister_loop_spec [of 0 source w1, unfolded unregister_loop_post_def pg]
  from post obtain tr where tr: "trace (unregister_loop 0 source w1) = trace w1 @ tr"
    "released tr = filter (\<lambda>p. ev_source (heap w p) = source) (events (queue w))"
    "\<forall>(c, q') \<in> set tr. \<exists>p. c = ReleaseEvent p \<or> c = RecycleEvent p"
    by blast
  have "calls_since w (al_unregister_event_source source w) =
      (OnUnregistration source, (queue w)\<lparr>sources := remove1 source (sources (queue w))\<rparr>) # tr"
    using tr(1) by (simp add: u w1(5) calls_since_def)
  with tr(2,3) have A: "\<exists>q tr. calls_since w (al_unregister_event_source source w) =
                   (OnUnregistration source, q) # tr
              \<and> released tr = filter (\<lambda>p. ev_source (heap w p) = source) (events (queue w))
              \<and> (\<forall>(c, q') \<in> set tr. \<exists>p. c = ReleaseEvent p \<or> c = RecycleEvent p)"
    by blast
  have B: "events (queue (al_unregister_event_source source w)) =
             filter (\<lambda>p. ev_source (heap w p) \<noteq> source) (events (queue w))"
    "sources (queue (al_unregister_event_source source w)) = remove1 source (sources (queue w))"
    "mutex (queue (al_unregister_event_source source w)) = mutex (queue w)"
    using post by (simp_all add: u w1)
  have C: "\<forall>p. heap (al_unregister_event_source source w) p =
              (heap w p)\<lparr>ev_refcount := ev_refcount (heap w p) -
                 int (count_list
                   (filter (\<lambda>p. ev_source (heap w p) = source) (events (queue w))) p)\<rparr>"
    using post by (simp add: u w1)
  show ?thesis
    using A B C by blast
qed

lemma destroy_loop_nil: "sources (queue w) = [] \<Longrightarrow> destroy_loop w = w"
  by (subst destroy_loop.simps) (simp add: al_vector_is_nonempty_def)

text \<open>Waiting.\<close>

lemma deadline_always_append [simp]:
  "deadline_always d (xs @ ys) = (deadline_always d xs \<and> deadline_always d ys)"
  by (induction d xs rule: deadline_always.induct) simp_all

lemma broadcasts_only:
  "\<forall>(c, q) \<in> set tr. c = CondBroadcast \<Longrightarrow>
   deadline_always d tr \<and> \<not> timeout_reported tr \<and> released tr = []"
  by (induction tr) auto

lemma push_events_cong:
  assumes "events (queue w) = events (queue v)" and "heap w = heap v"
  shows "events (queue (push_events es w)) = events (queue (push_events es v))"
    and "heap (push_events es w) = heap (push_events es v)"
proof -
  show "events (queue (push_events es w)) = events (queue (push_events es v))"
    using push_events_spec [of es w] push_events_spec [of es v] assms by simp
  show "heap (push_events es w) = heap (push_events es v)"
  proof
    fix p
    show "heap (push_events es w) p = heap (push_events es v) p"
      using push_events_spec [of es w] push_events_spec [of es v] assms by simp
  qed
qed

lemma push_events_empty_result:
  assumes "events (queue (push_events es w)) = []"
  shows "heap (push_events es w) = heap w"
proof
  fix p
  have "events (queue w) @ take (MAX_QUEUE_SIZE - length (events (queue w))) es = []"
    using push_events_spec [of es w] assms by metis
  then have t: "take (MAX_QUEUE_SIZE - length (events (queue w))) es = []"
    by (rule append_is_Nil_conv [THEN iffD1, THEN conjunct2])
  have h: "heap (push_events es w) p =
      (heap w p)\<lparr>ev_refcount := ev_refcount (heap w p) +
         int (count_list (take (MAX_QUEUE_SIZE - length (events (queue w))) es) p)\<rparr>"
    using push_events_spec [of es w] by blast
  show "heap (push_events es w) p = heap w p"
    unfolding h t by simp
qed

lemma blocked_spec:
  "events (queue (blocked k w)) = events (queue (push_events (wk_pushed k) w))"
  "heap (blocked k w) = heap (push_events (wk_pushed k) w)"
  "sources (queue (blocked k w)) = sources (queue w)"
  "mutex (queue (blocked k w)) = mutex (queue w)"
  "\<exists>tr. trace (blocked k w) = trace w @ tr \<and> (\<forall>(c, q) \<in> set tr. c = CondBroadcast)"
proof -
  let ?v = "w\<lparr>queue := (queue w)\<lparr>mutex := 0\<rparr>\<rparr>"
  have v: "events (queue ?v) = events (queue w)" "heap ?v = heap w"
    by simp_all
  show "events (queue (blocked k w)) = events (queue (push_events (wk_pushed k) w))"
    using push_events_cong(1) [OF v] by (simp add: blocked_def Let_def)
  show "heap (blocked k w) = heap (push_events (wk_pushed k) w)"
    using push_events_cong(2) [OF v] by (simp add: blocked_def Let_def)
  show "sources (queue (blocked k w)) = sources (queue w)"
    using push_events_spec [of "wk_pushed k" ?v] by (simp add: blocked_def Let_def)
  show "mutex (queue (blocked k w)) = mutex (queue w)"
    by (simp add: blocked_def Let_def)
  show "\<exists>tr. trace (blocked k w) = trace w @ tr \<and> (\<forall>(c, q) \<in> set tr. c = CondBroadcast)"
    using push_events_trace [of "wk_pushed k" ?v] by (simp add: blocked_def Let_def)
qed

lemma timed_loop_exit:
  assumes "events (queue w) \<noteq> [] \<or> res = - 1"
  shows "timed_loop d ks res w = Inr (res, w)"
proof -
  have c: "\<not> (al_vector_is_empty (events (queue w)) \<and> res \<noteq> - 1)"
    using assms by (auto simp: al_vector_is_empty_def)
  show ?thesis
    by (cases ks) (simp_all only: timed_loop.simps if_not_P [OF c])
qed

lemma timed_loop_stuck:
  "events (queue w) = [] \<Longrightarrow> res \<noteq> - 1 \<Longrightarrow> timed_loop d [] res w = Inl Still_waiting"
  by (simp add: al_vector_is_empty_def)

lemma timed_loop_step:
  "events (queue w) = [] \<Longrightarrow> res \<noteq> - 1 \<Longrightarrow>
   timed_loop d (k # ks) res w =
     timed_loop d ks (wk_result k) (blocked k (log_call (CondTimedWait d (wk_result k)) w))"
  by (simp add: al_vector_is_empty_def al_cond_timedwait_def)

declare timed_loop.simps [simp del]

lemma timed_loop_post_exit:
  "events (queue w) \<noteq> [] \<Longrightarrow> res \<noteq> - 1 \<Longrightarrow> timed_loop_post d ks w res w"
  by (simp add: timed_loop_post_def)

lemma timed_loop_spec:
  "timed_loop d ks res w = Inr (res', w') \<Longrightarrow> res \<noteq> - 1 \<Longrightarrow> timed_loop_post d ks w res' w'"
proof (induction ks arbitrary: res w)
  case Nil
  show ?case
  proof (cases "events (queue w) = []")
    case True
    with Nil show ?thesis
      by (simp add: timed_loop_stuck)
  next
    case False
    with Nil show ?thesis
      by (simp add: timed_loop_exit timed_loop_post_exit)
  qed
next
  case (Cons k ks)
  show ?case
  proof (cases "events (queue w) = []")
    case False
    then have "timed_loop d (k # ks) res w = Inr (res, w)"
      by (simp add: timed_loop_exit)
    with Cons.prems False show ?thesis
      by (simp add: timed_loop_post_exit)
  next
    case empty: True
    define r1 where "r1 = wk_result k"
    define w0 where "w0 = log_call (CondTimedWait d r1) w"
    define w1 where "w1 = blocked k w0"
    have run: "timed_loop d ks r1 w1 = Inr (res', w')"
      using Cons.prems timed_loop_step [OF empty Cons.prems(2), of d k ks]
      by (simp add: r1_def w0_def w1_def)
    have w0: "events (queue w0) = events (queue w)" "heap w0 = heap w"
      "sources (queue w0) = sources (queue w)" "mutex (queue w0) = mutex (queue w)"
      "trace w0 = trace w @ [(CondTimedWait d r1, queue w)]"
      by (simp_all add: w0_def)
    obtain bs where bs: "trace w1 = trace w0 @ bs" "\<forall>(c, q) \<in> set bs. c = CondBroadcast"
      using blocked_spec(5) [of k w0] by (auto simp: w1_def)
    note bo = broadcasts_only [OF bs(2), of d]
    have w1: "events (queue w1) = events (queue (push_events (wk_pushed k) w))"
      "heap w1 = heap (push_events (wk_pushed k) w)"
      "sources (queue w1) = sources (queue w)" "mutex (queue w1) = mutex (queue w)"
      using push_events_cong [OF w0(1,2), of "wk_pushed k"]
      by (simp_all add: w1_def blocked_spec w0)
    have tr1: "trace w1 = trace w @ (CondTimedWait d r1, queue w) # bs"
      by (simp add: bs(1) w0(5))
    show ?thesis
    proof (cases "events (queue w1) \<noteq> [] \<or> r1 = - 1")
      case True
      then have "timed_loop d ks r1 w1 = Inr (r1, w1)"
        by (rule timed_loop_exit)
      with run have eq: "res' = r1" "w' = w1"
        by simp_all
      have A: "\<exists>tr. trace w' = trace w @ tr \<and> deadline_always d tr
          \<and> released tr = [] \<and> (timeout_reported tr \<longleftrightarrow> res' = - 1)"
      proof (intro exI conjI)
        show "trace w' = trace w @ (CondTimedWait d r1, queue w) # bs"
          by (simp add: eq tr1)
      qed (use bo in \<open>simp_all add: eq\<close>)
      have B: "res' = - 1 \<longrightarrow>
           (\<exists>k' \<in> set (k # ks). wk_result k' = - 1
              \<and> events (queue w') = events (queue (push_events (wk_pushed k') w))
              \<and> heap w' = heap (push_events (wk_pushed k') w))"
        using w1(1,2) by (auto simp: eq r1_def)
      have C: "res' \<noteq> - 1 \<longrightarrow> events (queue w') \<noteq> []"
        using True by (auto simp: eq)
      show ?thesis
        unfolding timed_loop_post_def using A B C w1(3,4) by (simp add: eq)
    next
      case False
      then have e1: "events (queue w1) = []" and r1: "r1 \<noteq> - 1"
        by simp_all
      have h1: "heap w1 = heap w"
        using push_events_empty_result [of "wk_pushed k" w] e1 by (simp add: w1)
      have ih: "timed_loop_post d ks w1 res' w'"
        by (rule Cons.IH [OF run r1])
      from ih obtain tr where tr: "trace w' = trace w1 @ tr" "deadline_always d tr"
        "released tr = []" "timeout_reported tr \<longleftrightarrow> res' = - 1"
        unfolding timed_loop_post_def by blast
      have A: "\<exists>tr. trace w' = trace w @ tr \<and> deadline_always d tr
          \<and> released tr = [] \<and> (timeout_reported tr \<longleftrightarrow> res' = - 1)"
      proof (intro exI conjI)
        show "trace w' = trace w @ ((CondTimedWait d r1, queue w) # bs) @ tr"
          by (simp add: tr(1) tr1)
      qed (use bo tr r1 in simp_all)
      have B: "res' = - 1 \<longrightarrow>
           (\<exists>k' \<in> set (k # ks). wk_result k' = - 1
              \<and> events (queue w') = events (queue (push_events (wk_pushed k') w))
              \<and> heap w' = heap (push_events (wk_pushed k') w))"
      proof
        assume "res' = - 1"
        with ih obtain k' where k': "k' \<in> set ks" "wk_result k' = - 1"
          "events (queue w') = events (queue (push_events (wk_pushed k') w1))"
          "heap w' = heap (push_events (wk_pushed k') w1)"
          unfolding timed_loop_post_def by blast
        have same: "events (queue w1) = events (queue w)"
          by (simp add: e1 empty)
        show "\<exists>k' \<in> set (k # ks). wk_result k' = - 1
              \<and> events (queue w') = events (queue (push_events (wk_pushed k') w))
              \<and> heap w' = heap (push_events (wk_pushed k') w)"
          using k' push_events_cong [OF same h1, of "wk_pushed k'"] by auto
      qed
      show ?thesis
        unfolding timed_loop_post_def using A B ih
        by (simp add: timed_loop_post_def w1(3,4))
    qed
  qed
qed

lemma timed_loop_returns:
  "\<exists>k \<in> set ks. wk_result k = - 1 \<Longrightarrow> \<exists>res' w'. timed_loop d ks res w = Inr (res', w')"
proof (induction ks arbitrary: res w)
  case Nil
  then show ?case by simp
next
  case (Cons k ks)
  show ?case
  proof (cases "events (queue w) \<noteq> [] \<or> res = - 1")
    case True
    then show ?thesis
      by (simp add: timed_loop_exit)
  next
    case False
    then have step: "timed_loop d (k # ks) res w =
        timed_loop d ks (wk_result k) (blocked k (log_call (CondTimedWait d (wk_result k)) w))"
      by (simp add: timed_loop_step)
    show ?thesis
    proof (cases "wk_result k = - 1")
      case True
      then show ?thesis
        by (simp add: step timed_loop_exit)
    next
      case False
      with Cons.prems have "\<exists>k \<in> set ks. wk_result k = - 1"
        by auto
      from Cons.IH [OF this] show ?thesis
        by (simp add: step)
    qed
  qed
qed

lemma get_next_event_if_any_cons:
  "events (queue w) = p # ps \<Longrightarrow>
   get_next_event_if_any True w = (Some p, w\<lparr>queue := (queue w)\<lparr>events := ps\<rparr>\<rparr>)"
  by (simp add: get_next_event_if_any_def al_vector_is_empty_def al_vector_ref_front_def
      al_vector_ref_def al_vector_delete_at_def Let_def)

lemma wait_on_queue_timed_timeout:
  "timed_loop (unat (now + msecs)) ks 0 (al_mutex_lock w) = Inr (- 1, w1) \<Longrightarrow>
   wait_on_queue_timed now ret_event msecs ks w = Inr (False, ret_event, al_mutex_unlock w1)"
  by (simp add: wait_on_queue_timed_def Let_def)

lemma wait_on_queue_timed_event:
  assumes "timed_loop (unat (now + msecs)) ks 0 (al_mutex_lock w) = Inr (res, w1)"
    and "res \<noteq> - 1" and "events (queue w1) = p # ps"
  shows "wait_on_queue_timed now ret_event msecs ks w =
           (if ret_event \<noteq> None then
              Inr (True, Some (al_copy_event (heap w1 p)),
                   al_release_event p (al_mutex_unlock (w1\<lparr>queue := (queue w1)\<lparr>events := ps\<rparr>\<rparr>)))
            else Inr (True, ret_event, al_mutex_unlock w1))"
  using assms
  by (simp add: wait_on_queue_timed_def Let_def get_next_event_if_any_cons)

lemma wait_on_queue_timed_spec:
  assumes run: "wait_on_queue_timed now ret_event msecs ks w = Inr (b, r, w')"
  shows "deadline_always (unat (now + msecs)) (calls_since w w')
         \<and> (timeout_reported (calls_since w w') \<longleftrightarrow> \<not> b)
         \<and> (\<not> b \<longrightarrow>
              r = ret_event \<and> released (calls_since w w') = []
              \<and> sources (queue w') = sources (queue w)
              \<and> mutex (queue w') = mutex (queue w)
              \<and> (\<exists>k \<in> set ks. wk_result k = - 1
                   \<and> events (queue w') = events (queue (push_events (wk_pushed k) w))
                   \<and> heap w' = heap (push_events (wk_pushed k) w)))"
proof -
  let ?d = "unat (now + msecs)"
  let ?l = "al_mutex_lock w"
  obtain res w1 where loop: "timed_loop ?d ks 0 ?l = Inr (res, w1)"
    using run by (cases "timed_loop ?d ks 0 ?l")
      (auto simp: wait_on_queue_timed_def Let_def)
  have post: "timed_loop_post ?d ks ?l res w1"
    by (rule timed_loop_spec [OF loop]) simp
  from post obtain tr where tr: "trace w1 = trace w @ tr" "deadline_always ?d tr"
    "released tr = []" "timeout_reported tr \<longleftrightarrow> res = - 1"
    unfolding timed_loop_post_def by auto
  have l: "events (queue ?l) = events (queue w)" "heap ?l = heap w"
    by simp_all
  show ?thesis
  proof (cases "res = - 1")
    case True
    from run have eq: "b = False" "r = ret_event" "w' = al_mutex_unlock w1"
      using wait_on_queue_timed_timeout [of now msecs ks w w1 ret_event] loop True
      by simp_all
    have cs: "calls_since w w' = tr"
      by (simp add: calls_since_def eq tr(1))
    obtain k where k: "k \<in> set ks" "wk_result k = - 1"
      "events (queue w1) = events (queue (push_events (wk_pushed k) ?l))"
      "heap w1 = heap (push_events (wk_pushed k) ?l)"
      using post True unfolding timed_loop_post_def by blast
    have "events (queue w') = events (queue (push_events (wk_pushed k) w))"
      "heap w' = heap (push_events (wk_pushed k) w)"
      using k(3,4) push_events_cong [OF l, of "wk_pushed k"] by (simp_all add: eq)
    with k(1,2) have K: "\<exists>k \<in> set ks. wk_result k = - 1
                   \<and> events (queue w') = events (queue (push_events (wk_pushed k) w))
                   \<and> heap w' = heap (push_events (wk_pushed k) w)"
      by blast
    have "sources (queue w') = sources (queue w)" "mutex (queue w') = mutex (queue w)"
      using post unfolding timed_loop_post_def by (simp_all add: eq)
    with K tr True show ?thesis
      by (simp add: cs eq(1,2))
  next
    case False
    then have "events (queue w1) \<noteq> []"
      using post unfolding timed_loop_post_def by blast
    then obtain p ps where evs: "events (queue w1) = p # ps"
      by (cases "events (queue w1)") auto
    note ev = wait_on_queue_timed_event [OF loop False evs, of ret_event]
    show ?thesis
    proof (cases "ret_event = None")
      case True
      with run ev have eq: "b = True" "w' = al_mutex_unlock w1"
        by simp_all
      have cs: "calls_since w w' = tr"
        by (simp add: calls_since_def eq tr(1))
      show ?thesis
        using tr False by (simp add: cs eq(1))
    next
      case some: False
      with run ev have eq: "b = True"
        "w' = al_release_event p (al_mutex_unlock (w1\<lparr>queue := (queue w1)\<lparr>events := ps\<rparr>\<rparr>))"
        by simp_all
      have "\<exists>rl. calls_since w w' = tr @ rl \<and> deadline_always ?d rl \<and> \<not> timeout_reported rl"
        by (simp add: calls_since_def eq tr(1))
      then obtain rl where cs: "calls_since w w' = tr @ rl" "deadline_always ?d rl"
        "\<not> timeout_reported rl"
        by blast
      show ?thesis
        using tr False cs(2,3) by (simp add: cs(1) eq(1))
    qed
  qed
qed

lemma wait_on_queue_timed_returns:
  assumes "\<exists>k \<in> set ks. wk_result k = - 1"
  shows "\<exists>b r w'. wait_on_queue_timed now ret_event msecs ks w = Inr (b, r, w')"
proof -
  let ?d = "unat (now + msecs)"
  obtain res w1 where loop: "timed_loop ?d ks 0 (al_mutex_lock w) = Inr (res, w1)"
    using timed_loop_returns [OF assms] by blast
  have post: "timed_loop_post ?d ks (al_mutex_lock w) res w1"
    by (rule timed_loop_spec [OF loop]) simp
  show ?thesis
  proof (cases "res = - 1")
    case True
    then show ?thesis
      using wait_on_queue_timed_timeout [of now msecs ks w w1 ret_event] loop by auto
  next
    case False
    then have "events (queue w1) \<noteq> []"
      using post unfolding timed_loop_post_def by blast
    then obtain p ps where evs: "events (queue w1) = p # ps"
      by (cases "events (queue w1)") auto
    show ?thesis
      using wait_on_queue_timed_event [OF loop False evs, of ret_event] by auto
  qed
qed

text \<open>What \<open>_al_copy_event\<close> keeps of the record and what it resets.\<close>

lemma al_copy_event_keeps:
  "ev_type (al_copy_event e) = ev_type e"
  "ev_source (al_copy_event e) = ev_source e"
  "ev_timestamp (al_copy_event e) = ev_timestamp e"
  "ev_payload (al_copy_event e) = ev_payload e"
  "ev_refcount (al_copy_event e) = 0"
  "ev_next (al_copy_event e) = None"
  "ev_next_free (al_copy_event e) = None"
  by (simp_all add: al_copy_event_def)

section \<open>The claims\<close>

text \<open>
  C1 (FIFO). Let a queue hold the events \<open>old\<close>, and let \<open>es = e1, ..., en\<close> be pushed with
  no get in between, the capacity not being exceeded. Then as many successive calls of
  \<open>al_get_next_event\<close> as there are events each return true, and the records they fill
  in are, in that order, the records of \<open>old\<close> and then of \<open>e1, ..., en\<close> as they are in
  the store: type, source, time stamp and payload as stored, the reference count 0 and
  the two links null. For a queue that starts empty these are \<open>n\<close> calls returning
  \<open>e1, ..., en\<close>.
\<close>

theorem get_returns_pushed_in_order:
  assumes "length (events (queue w)) + length es \<le> MAX_QUEUE_SIZE"
  shows "fst (get_next_events (length (events (queue w)) + length es) r (push_events es w)) =
           map (\<lambda>p. (True,
                  (heap w p)\<lparr>ev_refcount := 0, ev_next := None, ev_next_free := None\<rparr>))
             (events (queue w) @ es)"
proof -
  have t: "take (MAX_QUEUE_SIZE - length (events (queue w))) es = es"
    using assms by simp
  have evs: "events (queue (push_events es w)) = events (queue w) @ es"
    using push_events_spec [of es w] by (simp add: t)
  have copy: "al_copy_event (heap (push_events es w) p) = al_copy_event (heap w p)" for p
    using push_events_spec [of es w] by simp
  have "fst (get_next_events (length (events (queue w) @ es)) r (push_events es w)) =
      map (\<lambda>p. (True, al_copy_event (heap (push_events es w) p)))
        (take (length (events (queue w) @ es)) (events (queue (push_events es w))))"
    using get_next_events_spec [of "length (events (queue w) @ es)" "push_events es w" r]
    by (simp add: evs)
  then have "fst (get_next_events (length (events (queue w)) + length es) r
        (push_events es w)) =
      map (\<lambda>p. (True, al_copy_event (heap w p))) (events (queue w) @ es)"
    by (simp add: evs copy)
  then show ?thesis
    unfolding al_copy_event_def .
qed

theorem get_returns_pushed_in_order_witness:
  "length (events (queue (sample_world [] [3]))) + length [5, 6, 7 :: nat] \<le> MAX_QUEUE_SIZE
   \<and> fst (get_next_events 3 blank_event (push_events [5, 6, 7] (sample_world [] [3]))) =
       [(True, blank_event\<lparr>ev_type := 5, ev_source := 3\<rparr>),
        (True, blank_event\<lparr>ev_type := 6, ev_source := 4\<rparr>),
        (True, blank_event\<lparr>ev_type := 7, ev_source := 3\<rparr>)]"
proof -
  let ?w = "sample_world [] [3]"
  have h: "length (events (queue ?w)) + length [5, 6, 7 :: nat] \<le> MAX_QUEUE_SIZE"
    by (simp add: sample_world_def MAX_QUEUE_SIZE_def)
  have n: "length (events (queue ?w)) + length [5, 6, 7 :: nat] = 3"
    by (simp add: sample_world_def)
  have e: "map (\<lambda>p. (True,
                  (heap ?w p)\<lparr>ev_refcount := 0, ev_next := None, ev_next_free := None\<rparr>))
             (events (queue ?w) @ [5, 6, 7]) =
       [(True, blank_event\<lparr>ev_type := 5, ev_source := 3\<rparr>),
        (True, blank_event\<lparr>ev_type := 6, ev_source := 4\<rparr>),
        (True, blank_event\<lparr>ev_type := 7, ev_source := 3\<rparr>)]"
    by (simp add: sample_world_def sample_heap_def blank_event_def)
  from get_returns_pushed_in_order [OF h, of blank_event]
  have "fst (get_next_events 3 blank_event (push_events [5, 6, 7] ?w)) =
       [(True, blank_event\<lparr>ev_type := 5, ev_source := 3\<rparr>),
        (True, blank_event\<lparr>ev_type := 6, ev_source := 4\<rparr>),
        (True, blank_event\<lparr>ev_type := 7, ev_source := 3\<rparr>)]"
    unfolding n e .
  with h show ?thesis by blast
qed

text \<open>
  C2 (overflow). A push into a queue that holds \<open>MAX_QUEUE_SIZE = 512\<close> events leaves the
  whole world as it was: the buffer, every reference count, and the log (nothing is
  signalled); the function has no result through which an error could be returned.
  Hence after \<open>MAX_QUEUE_SIZE + 1\<close> pushes into a queue fresh from
  \<open>al_create_event_queue\<close> the buffer holds the first \<open>MAX_QUEUE_SIZE\<close> events pushed, and
  draining yields, in order, exactly the records of these as they are in the store (type,
  source, time stamp and payload as stored, the reference count 0 and the two links
  null), and leaves the queue empty.
\<close>

theorem push_on_full_queue_drops_newest:
  "(length (events (queue w)) = MAX_QUEUE_SIZE \<longrightarrow> al_event_queue_push_event p w = w)
   \<and> (length es = MAX_QUEUE_SIZE + 1 \<longrightarrow> al_create_event_queue True h tr = Some w0 \<longrightarrow>
        MAX_QUEUE_SIZE < fuel \<longrightarrow>
        events (queue (push_events es w0)) = take MAX_QUEUE_SIZE es
        \<and> (\<exists>w'. drain fuel r (push_events es w0) =
                  Some (map (\<lambda>p. (h p)\<lparr>ev_refcount := 0, ev_next := None,
                                        ev_next_free := None\<rparr>)
                          (take MAX_QUEUE_SIZE es), w')
               \<and> al_event_queue_is_empty w'))"
proof (intro conjI impI)
  assume "length (events (queue w)) = MAX_QUEUE_SIZE"
  then show "al_event_queue_push_event p w = w"
    by (simp add: push_full)
next
  assume len: "length es = MAX_QUEUE_SIZE + 1"
    and create: "al_create_event_queue True h tr = Some w0"
    and fuel: "MAX_QUEUE_SIZE < fuel"
  have w0: "events (queue w0) = []" "heap w0 = h"
    using create by (auto simp: al_create_event_queue_def)
  show evs: "events (queue (push_events es w0)) = take MAX_QUEUE_SIZE es"
    using push_events_spec [of es w0] by (simp add: w0)
  have copy: "al_copy_event (heap (push_events es w0) p) = al_copy_event (h p)" for p
    using push_events_spec [of es w0] by (simp add: w0)
  have "length (events (queue (push_events es w0))) < fuel"
    using fuel len by (simp add: evs)
  from drain_spec [OF this, of r]
  have "\<exists>w'. drain fuel r (push_events es w0) =
                Some (map (\<lambda>p. al_copy_event (h p)) (take MAX_QUEUE_SIZE es), w')
             \<and> al_event_queue_is_empty w'"
    by (simp add: evs copy al_event_queue_is_empty_def al_vector_is_empty_def)
  then show "\<exists>w'. drain fuel r (push_events es w0) =
                Some (map (\<lambda>p. (h p)\<lparr>ev_refcount := 0, ev_next := None,
                                      ev_next_free := None\<rparr>)
                        (take MAX_QUEUE_SIZE es), w')
             \<and> al_event_queue_is_empty w'"
    unfolding al_copy_event_def .
qed

theorem push_on_full_queue_drops_newest_witness:
  "length (events (queue (sample_world (replicate 512 7) [3]))) = MAX_QUEUE_SIZE
   \<and> al_event_queue_push_event 9 (sample_world (replicate 512 7) [3]) =
       sample_world (replicate 512 7) [3]
   \<and> length [0..<513] = MAX_QUEUE_SIZE + 1
   \<and> al_create_event_queue True sample_heap [] =
       Some (log_call RegisterDestructor (sample_world [] []))
   \<and> MAX_QUEUE_SIZE < 600
   \<and> events (queue (push_events [0..<513] (log_call RegisterDestructor (sample_world [] [])))) =
       [0..<512]
   \<and> (\<exists>w'. drain 600 blank_event
              (push_events [0..<513] (log_call RegisterDestructor (sample_world [] []))) =
                Some (map (\<lambda>p. blank_event\<lparr>ev_type := p,
                                   ev_source := (if odd p then 3 else 4)\<rparr>) [0..<512], w')
             \<and> al_event_queue_is_empty w')"
  using push_on_full_queue_drops_newest
          [of "sample_world (replicate 512 7) [3]" 9 "[0..<513]" sample_heap "[]"
              "log_call RegisterDestructor (sample_world [] [])" 600 blank_event]
  by (simp add: sample_world_def MAX_QUEUE_SIZE_def al_create_event_queue_def
      sample_heap_def blank_event_def)

text \<open>
  C6 (empty and non-empty queue). On an empty queue \<open>al_get_next_event\<close> and
  \<open>al_peek_next_event\<close> return false, as a value, and \<open>al_drop_next_event\<close> does
  nothing: the world, and with it the buffer and the sources, is as before. On a
  non-empty queue \<open>al_get_next_event\<close> returns true and fills the caller's record with
  the record of the head as it is in the store (type, source, time stamp and payload as
  stored, the reference count 0 and the two links null); it leaves the tail of the
  buffer, the head is the one event it releases, and the sources stay.
\<close>

theorem get_peek_drop_on_empty_and_get_on_nonempty:
  "(al_event_queue_is_empty w \<longrightarrow>
      al_get_next_event r w = (False, r, w) \<and> al_peek_next_event r w = (False, r, w)
      \<and> al_drop_next_event w = w)
   \<and> (\<not> al_event_queue_is_empty w \<longrightarrow>
        (\<exists>w'. al_get_next_event r w =
                 (True,
                  (heap w (hd (events (queue w))))
                    \<lparr>ev_refcount := 0, ev_next := None, ev_next_free := None\<rparr>, w')
             \<and> events (queue w') = tl (events (queue w))
             \<and> sources (queue w') = sources (queue w)
             \<and> released (calls_since w w') = [hd (events (queue w))]))"
proof (intro conjI impI)
  assume "al_event_queue_is_empty w"
  then have e: "events (queue w) = []"
    by (simp add: al_event_queue_is_empty_def al_vector_is_empty_def)
  show "al_get_next_event r w = (False, r, w)"
    by (rule get_empty [OF e])
  show "al_peek_next_event r w = (False, r, w)"
    by (rule peek_empty [OF e])
  show "al_drop_next_event w = w"
    by (rule drop_empty [OF e])
next
  assume "\<not> al_event_queue_is_empty w"
  then obtain p ps where e: "events (queue w) = p # ps"
    by (cases "events (queue w)")
       (auto simp: al_event_queue_is_empty_def al_vector_is_empty_def)
  let ?w' = "al_release_event p (w\<lparr>queue := (queue w)\<lparr>events := ps\<rparr>\<rparr>)"
  have "al_get_next_event r w =
      (True,
       (heap w (hd (events (queue w))))
         \<lparr>ev_refcount := 0, ev_next := None, ev_next_free := None\<rparr>, ?w')"
    by (simp add: get_cons [OF e] e al_copy_event_def)
  moreover have "events (queue ?w') = tl (events (queue w))"
    "sources (queue ?w') = sources (queue w)"
    by (simp_all add: e)
  moreover have "released (calls_since w ?w') = [hd (events (queue w))]"
    by (simp add: calls_since_def e)
  ultimately show "\<exists>w'. al_get_next_event r w =
                 (True,
                  (heap w (hd (events (queue w))))
                    \<lparr>ev_refcount := 0, ev_next := None, ev_next_free := None\<rparr>, w')
             \<and> events (queue w') = tl (events (queue w))
             \<and> sources (queue w') = sources (queue w)
             \<and> released (calls_since w w') = [hd (events (queue w))]"
    by blast
qed

theorem get_peek_drop_on_empty_and_get_on_nonempty_witness:
  "al_event_queue_is_empty (sample_world [] [3])
   \<and> al_get_next_event blank_event (sample_world [] [3]) =
       (False, blank_event, sample_world [] [3])
   \<and> al_peek_next_event blank_event (sample_world [] [3]) =
       (False, blank_event, sample_world [] [3])
   \<and> al_drop_next_event (sample_world [] [3]) = sample_world [] [3]
   \<and> \<not> al_event_queue_is_empty (sample_world [5, 6] [3])
   \<and> (\<exists>w'. al_get_next_event (sample_heap 8) (sample_world [5, 6] [3]) =
              (True, blank_event\<lparr>ev_type := 5, ev_source := 3\<rparr>, w')
          \<and> events (queue w') = [6] \<and> sources (queue w') = [3]
          \<and> released (calls_since (sample_world [5, 6] [3]) w') = [5])"
  using get_peek_drop_on_empty_and_get_on_nonempty [of "sample_world [] [3]" blank_event]
    get_peek_drop_on_empty_and_get_on_nonempty [of "sample_world [5, 6] [3]" "sample_heap 8"]
  by (simp add: sample_world_def al_event_queue_is_empty_def al_vector_is_empty_def
      sample_heap_def blank_event_def)

text \<open>
  C7 (peek). Two calls of \<open>al_peek_next_event\<close> in a row return the same boolean and,
  when it is true, the same contents, whatever records the caller hands in. A peek
  leaves the world as it was: the buffer, every reference count, the log (no release),
  and so the answer of \<open>al_event_queue_is_empty\<close>.
\<close>

theorem peek_twice_same_result:
  assumes "al_peek_next_event r w = (b, r1, w1)"
    and "al_peek_next_event r' w1 = (b', r2, w2)"
  shows "b' = b \<and> (b \<longrightarrow> r2 = r1)
         \<and> w1 = w \<and> w2 = w
         \<and> events (queue w2) = events (queue w) \<and> heap w2 = heap w \<and> trace w2 = trace w
         \<and> al_event_queue_is_empty w2 = al_event_queue_is_empty w"
proof (cases "events (queue w)")
  case Nil
  from assms(1) have 1: "b = False" "w1 = w"
    by (auto simp: peek_empty [OF Nil])
  from assms(2) have "b' = False" "w2 = w"
    unfolding 1 by (auto simp: peek_empty [OF Nil])
  with 1 show ?thesis by simp
next
  case (Cons p ps)
  from assms(1) have 1: "b = True" "r1 = al_copy_event (heap w p)" "w1 = w"
    by (auto simp: peek_cons [OF Cons])
  from assms(2) have "b' = True" "r2 = al_copy_event (heap w p)" "w2 = w"
    unfolding 1 by (auto simp: peek_cons [OF Cons])
  with 1 show ?thesis by simp
qed

theorem peek_twice_same_result_witness:
  "al_peek_next_event blank_event (sample_world [5, 6] [3]) =
     (True, al_copy_event (sample_heap 5), sample_world [5, 6] [3])
   \<and> al_peek_next_event (sample_heap 9) (sample_world [5, 6] [3]) =
     (True, al_copy_event (sample_heap 5), sample_world [5, 6] [3])
   \<and> events (queue (sample_world [5, 6] [3])) = [5, 6]
   \<and> \<not> al_event_queue_is_empty (sample_world [5, 6] [3])"
proof -
  let ?w = "sample_world [5, 6] [3]"
  have e: "events (queue ?w) = [5, 6]" "heap ?w = sample_heap"
    by (simp_all add: sample_world_def)
  have 1: "al_peek_next_event blank_event ?w = (True, al_copy_event (sample_heap 5), ?w)"
    by (simp add: peek_cons [OF e(1)] e(2))
  have 2: "al_peek_next_event (sample_heap 9) ?w = (True, al_copy_event (sample_heap 5), ?w)"
    by (simp add: peek_cons [OF e(1)] e(2))
  from peek_twice_same_result [OF 1 2] 1 2 e(1)
  show ?thesis
    by (simp add: al_event_queue_is_empty_def al_vector_is_empty_def)
qed

text \<open>
  C9 (flush). Let the caller not hold the queue's mutex. After \<open>al_flush_event_queue\<close>
  the queue is empty. The events released are the buffered ones, last first, each
  occurrence in the buffer once, and each reference count has gone down by the number of
  times the event was in the buffer. At every call made meanwhile, the releases among
  them, the mutex was not held.
\<close>

theorem flush_releases_each_event_unlocked:
  assumes "mutex (queue w) = 0"
  shows "al_event_queue_is_empty (al_flush_event_queue w)
         \<and> released (calls_since w (al_flush_event_queue w)) = rev (events (queue w))
         \<and> (\<forall>p. count_list (released (calls_since w (al_flush_event_queue w))) p =
                  count_list (events (queue w)) p)
         \<and> (\<forall>(c, q) \<in> set (calls_since w (al_flush_event_queue w)). mutex q = 0)
         \<and> (\<forall>p. ev_refcount (heap (al_flush_event_queue w) p) =
                  ev_refcount (heap w p) - int (count_list (events (queue w)) p))
         \<and> mutex (queue (al_flush_event_queue w)) = 0"
proof -
  let ?l = "al_mutex_lock w"
  have l: "events (queue ?l) = events (queue w)" "mutex (queue ?l) = Suc 0"
    using assms by simp_all
  note spec = flush_loop_spec [OF l]
  from spec obtain tr where tr: "trace (flush_loop ?l) = trace ?l @ tr"
    "released tr = rev (events (queue w))" "\<forall>(c, q) \<in> set tr. mutex q = 0"
    by blast
  have cs: "calls_since w (al_flush_event_queue w) = tr"
    using tr(1) by (simp add: calls_since_def al_flush_event_queue_def)
  have "al_event_queue_is_empty (al_flush_event_queue w)"
    using spec by (simp add: al_flush_event_queue_def al_event_queue_is_empty_def
        al_vector_is_empty_def)
  moreover have "\<forall>p. ev_refcount (heap (al_flush_event_queue w) p) =
                  ev_refcount (heap w p) - int (count_list (events (queue w)) p)"
    using spec by (simp add: al_flush_event_queue_def)
  moreover have "mutex (queue (al_flush_event_queue w)) = 0"
    using spec by (simp add: al_flush_event_queue_def)
  ultimately show ?thesis
    using tr(2,3) by (simp add: cs)
qed

theorem flush_releases_each_event_unlocked_witness:
  "mutex (queue (sample_world [5, 6, 5] [3])) = 0
   \<and> al_event_queue_is_empty (al_flush_event_queue (sample_world [5, 6, 5] [3]))
   \<and> released (calls_since (sample_world [5, 6, 5] [3])
        (al_flush_event_queue (sample_world [5, 6, 5] [3]))) = [5, 6, 5]
   \<and> ev_refcount (heap (al_flush_event_queue (sample_world [5, 6, 5] [3])) 5) = - 2"
proof -
  let ?w = "sample_world [5, 6, 5] [3]"
  have m: "mutex (queue ?w) = 0"
    by (simp add: sample_world_def)
  have e: "events (queue ?w) = [5, 6, 5]" "ev_refcount (heap ?w 5) = 0"
    by (simp_all add: sample_world_def sample_heap_def blank_event_def)
  from flush_releases_each_event_unlocked [OF m] m show ?thesis
    by (simp add: e)
qed

text \<open>
  C10 (frame). Push, get, peek, drop and flush leave the list of registered sources as
  it was.
\<close>

theorem sources_unchanged_by_push_get_peek_drop_flush:
  "sources (queue (al_event_queue_push_event p w)) = sources (queue w)
   \<and> sources (queue (snd (snd (al_get_next_event r w)))) = sources (queue w)
   \<and> sources (queue (snd (snd (al_peek_next_event r w)))) = sources (queue w)
   \<and> sources (queue (al_drop_next_event w)) = sources (queue w)
   \<and> sources (queue (al_flush_event_queue w)) = sources (queue w)"
proof -
  have flush: "sources (queue (al_flush_event_queue w)) = sources (queue w)"
    using flush_loop_spec [of "al_mutex_lock w" "events (queue w)" "mutex (queue w)"]
    by (simp add: al_flush_event_queue_def)
  show ?thesis
  proof (cases "events (queue w)")
    case Nil
    then show ?thesis
      by (simp add: push_simps get_empty peek_empty drop_empty flush)
  next
    case (Cons a as)
    then show ?thesis
      by (simp add: push_simps get_cons peek_cons drop_cons flush)
  qed
qed

text \<open>
  C5 (register). For a source that is registered already \<open>al_register_event_source\<close>
  returns the world as it was: no hook is called, the list is unchanged. Otherwise the
  one call it makes is the source's registration hook, made while the source is not yet
  in the list; then the source is appended, and is in the list exactly once.
\<close>

theorem register_notifies_then_adds:
  "(source \<in> set (sources (queue w)) \<longrightarrow> al_register_event_source source w = w)
   \<and> (source \<notin> set (sources (queue w)) \<longrightarrow>
        map fst (calls_since w (al_register_event_source source w)) = [OnRegistration source]
        \<and> (\<forall>(c, q) \<in> set (calls_since w (al_register_event_source source w)).
              source \<notin> set (sources q))
        \<and> sources (queue (al_register_event_source source w)) = sources (queue w) @ [source]
        \<and> count_list (sources (queue (al_register_event_source source w))) source = 1
        \<and> events (queue (al_register_event_source source w)) = events (queue w)
        \<and> heap (al_register_event_source source w) = heap w)"
  by (simp add: al_register_event_source_def al_vector_contains_def
      al_event_source_on_registration_to_queue_def al_vector_alloc_back_def
      calls_since_def Let_def count_list_0_iff)

theorem register_notifies_then_adds_witness:
  "(3::nat) \<in> set (sources (queue (sample_world [] [3])))
   \<and> al_register_event_source 3 (sample_world [] [3]) = sample_world [] [3]
   \<and> (4::nat) \<notin> set (sources (queue (sample_world [] [3])))
   \<and> calls_since (sample_world [] [3]) (al_register_event_source 4 (sample_world [] [3])) =
       [(OnRegistration 4, \<lparr>events = [], sources = [3], mutex = 0\<rparr>)]
   \<and> sources (queue (al_register_event_source 4 (sample_world [] [3]))) = [3, 4]"
  using register_notifies_then_adds [of 3 "sample_world [] [3]"]
    register_notifies_then_adds [of 4 "sample_world [] [3]"]
  by (simp add: sample_world_def al_register_event_source_def al_vector_contains_def
      al_event_source_on_registration_to_queue_def al_vector_alloc_back_def
      calls_since_def Let_def)

text \<open>
  C4 (unregister). For a source that is not registered \<open>al_unregister_event_source\<close>
  returns the world as it was. For a registered one: the source is deleted from the list
  (and is no longer in it, the list having no duplicates); the first call made is the
  source's unregistration hook and all others are releases; the buffer keeps exactly the
  events whose source is another one, in their order; the events released are exactly the
  buffered events of that source, once per occurrence, and their reference counts go
  down accordingly. So after registering the source with a fresh queue and pushing any
  events within the capacity (three of the source and two of another one, say), then
  unregistering it, the buffer holds the events of the other sources in the order pushed.
\<close>

theorem unregister_purges_events_of_source:
  "(source \<notin> set (sources (queue w)) \<longrightarrow> al_unregister_event_source source w = w)
   \<and> (source \<in> set (sources (queue w)) \<longrightarrow>
        sources (queue (al_unregister_event_source source w)) =
          remove1 source (sources (queue w))
        \<and> (distinct (sources (queue w)) \<longrightarrow>
             source \<notin> set (sources (queue (al_unregister_event_source source w))))
        \<and> (\<exists>q tr. calls_since w (al_unregister_event_source source w) =
                     (OnUnregistration source, q) # tr
                \<and> released tr =
                    filter (\<lambda>p. ev_source (heap w p) = source) (events (queue w))
                \<and> (\<forall>(c, q') \<in> set tr. \<exists>p. c = ReleaseEvent p \<or> c = RecycleEvent p))
        \<and> events (queue (al_unregister_event_source source w)) =
            filter (\<lambda>p. ev_source (heap w p) \<noteq> source) (events (queue w))
        \<and> (\<forall>p. heap (al_unregister_event_source source w) p =
              (heap w p)\<lparr>ev_refcount := ev_refcount (heap w p) -
                 int (count_list
                   (filter (\<lambda>p. ev_source (heap w p) = source) (events (queue w))) p)\<rparr>))
   \<and> (al_create_event_queue True h tr0 = Some w0 \<longrightarrow> length es \<le> MAX_QUEUE_SIZE \<longrightarrow>
        events (queue (al_unregister_event_source source
          (push_events es (al_register_event_source source w0)))) =
        filter (\<lambda>p. ev_source (h p) \<noteq> source) es)"
proof (intro conjI impI)
  assume "source \<notin> set (sources (queue w))"
  then show "al_unregister_event_source source w = w"
    by (rule unregister_not_member)
next
  assume mem: "source \<in> set (sources (queue w))"
  note spec = unregister_spec [OF mem]
  show s: "sources (queue (al_unregister_event_source source w)) =
      remove1 source (sources (queue w))"
    using spec by blast
  show "source \<notin> set (sources (queue (al_unregister_event_source source w)))"
    if "distinct (sources (queue w))"
    using that by (simp add: s)
  show "\<exists>q tr. calls_since w (al_unregister_event_source source w) =
                     (OnUnregistration source, q) # tr
                \<and> released tr =
                    filter (\<lambda>p. ev_source (heap w p) = source) (events (queue w))
                \<and> (\<forall>(c, q') \<in> set tr. \<exists>p. c = ReleaseEvent p \<or> c = RecycleEvent p)"
    using spec by blast
  show "events (queue (al_unregister_event_source source w)) =
            filter (\<lambda>p. ev_source (heap w p) \<noteq> source) (events (queue w))"
    using spec by blast
  show "\<forall>p. heap (al_unregister_event_source source w) p =
              (heap w p)\<lparr>ev_refcount := ev_refcount (heap w p) -
                 int (count_list
                   (filter (\<lambda>p. ev_source (heap w p) = source) (events (queue w))) p)\<rparr>"
    using spec by blast
next
  assume create: "al_create_event_queue True h tr0 = Some w0"
    and len: "length es \<le> MAX_QUEUE_SIZE"
  define w1 where "w1 = al_register_event_source source w0"
  define w2 where "w2 = push_events es w1"
  have w0: "events (queue w0) = []" "sources (queue w0) = []" "heap w0 = h"
    using create by (auto simp: al_create_event_queue_def)
  have w1: "events (queue w1) = []" "sources (queue w1) = [source]" "heap w1 = h"
    by (simp_all add: w1_def w0 al_register_event_source_def al_vector_contains_def
        al_event_source_on_registration_to_queue_def al_vector_alloc_back_def Let_def)
  have w2: "events (queue w2) = es" "sources (queue w2) = [source]"
    "ev_source (heap w2 p) = ev_source (h p)" for p
    using push_events_spec [of es w1] len by (simp_all add: w2_def w1)
  have mem: "source \<in> set (sources (queue w2))"
    by (simp add: w2)
  have "events (queue (al_unregister_event_source source w2)) =
      filter (\<lambda>p. ev_source (heap w2 p) \<noteq> source) (events (queue w2))"
    using unregister_spec [OF mem] by blast
  then show "events (queue (al_unregister_event_source source
          (push_events es (al_register_event_source source w0)))) =
        filter (\<lambda>p. ev_source (h p) \<noteq> source) es"
    by (simp add: w2 w2_def [symmetric] w1_def [symmetric])
qed

theorem unregister_purges_events_of_source_witness:
  "(4::nat) \<notin> set (sources (queue (sample_world [5, 6, 7, 8, 9] [3])))
   \<and> al_unregister_event_source 4 (sample_world [5, 6, 7, 8, 9] [3]) =
       sample_world [5, 6, 7, 8, 9] [3]
   \<and> (3::nat) \<in> set (sources (queue (sample_world [5, 6, 7, 8, 9] [3])))
   \<and> distinct (sources (queue (sample_world [5, 6, 7, 8, 9] [3])))
   \<and> sources (queue (al_unregister_event_source 3 (sample_world [5, 6, 7, 8, 9] [3]))) = []
   \<and> events (queue (al_unregister_event_source 3 (sample_world [5, 6, 7, 8, 9] [3]))) = [6, 8]
   \<and> (\<exists>q tr. calls_since (sample_world [5, 6, 7, 8, 9] [3])
                (al_unregister_event_source 3 (sample_world [5, 6, 7, 8, 9] [3])) =
                  (OnUnregistration 3, q) # tr
            \<and> released tr = [5, 7, 9])
   \<and> al_create_event_queue True sample_heap [] =
       Some (log_call RegisterDestructor (sample_world [] []))
   \<and> length [5, 6, 7, 8, 9 :: nat] \<le> MAX_QUEUE_SIZE
   \<and> events (queue (al_unregister_event_source 3
        (push_events [5, 6, 7, 8, 9]
          (al_register_event_source 3 (log_call RegisterDestructor (sample_world [] [])))))) =
       [6, 8]"
proof -
  let ?w = "sample_world [5, 6, 7, 8, 9] [3]"
  have w: "events (queue ?w) = [5, 6, 7, 8, 9]" "sources (queue ?w) = [3]"
    "heap ?w = sample_heap"
    by (simp_all add: sample_world_def)
  have c: "al_create_event_queue True sample_heap [] =
       Some (log_call RegisterDestructor (sample_world [] []))"
    by (simp add: al_create_event_queue_def sample_world_def)
  have l: "length [5, 6, 7, 8, 9 :: nat] \<le> MAX_QUEUE_SIZE"
    by (simp add: MAX_QUEUE_SIZE_def)
  from unregister_purges_events_of_source [of 4 ?w sample_heap "[]"
      "log_call RegisterDestructor (sample_world [] [])" "[5, 6, 7, 8, 9]"]
    unregister_purges_events_of_source [of 3 ?w sample_heap "[]"
      "log_call RegisterDestructor (sample_world [] [])" "[5, 6, 7, 8, 9]"]
    c l
  show ?thesis
    unfolding w by (simp add: sample_heap_def) blast
qed

text \<open>
  C8 (bound on the buffer). A queue fresh from \<open>al_create_event_queue\<close> holds at most
  \<open>MAX_QUEUE_SIZE = 512\<close> events (the lower bound 0 is in the type of a length), and a
  queue that does still does after a push, a get, a peek, a drop, a flush, a
  registration, an unregistration, and a destruction that returns.
\<close>

theorem queue_bound_invariant:
  "(\<forall>w0. al_create_event_queue ok h tr = Some w0 \<longrightarrow> queue_bound w0)
   \<and> (queue_bound w \<longrightarrow>
        queue_bound (al_event_queue_push_event p w)
        \<and> queue_bound (snd (snd (al_get_next_event r w)))
        \<and> queue_bound (snd (snd (al_peek_next_event r w)))
        \<and> queue_bound (al_drop_next_event w)
        \<and> queue_bound (al_flush_event_queue w)
        \<and> queue_bound (al_register_event_source source w)
        \<and> queue_bound (al_unregister_event_source source w)
        \<and> (\<forall>w'. al_destroy_event_queue w = Inr w' \<longrightarrow> queue_bound w'))"
proof (intro conjI impI allI)
  fix w0
  assume "al_create_event_queue ok h tr = Some w0"
  then show "queue_bound w0"
    by (auto simp: al_create_event_queue_def queue_bound_def split: if_splits)
next
  assume b: "queue_bound w"
  show "queue_bound (al_event_queue_push_event p w)"
    using b by (simp add: queue_bound_def push_simps)
  show "queue_bound (snd (snd (al_get_next_event r w)))"
    using b by (cases "events (queue w)") (simp_all add: queue_bound_def get_empty get_cons)
  show "queue_bound (snd (snd (al_peek_next_event r w)))"
    using b by (cases "events (queue w)") (simp_all add: queue_bound_def peek_empty peek_cons)
  show "queue_bound (al_drop_next_event w)"
    using b by (cases "events (queue w)") (simp_all add: queue_bound_def drop_empty drop_cons)
  show "queue_bound (al_flush_event_queue w)"
    using flush_loop_spec [of "al_mutex_lock w" "events (queue w)" "mutex (queue w)"]
    by (simp add: queue_bound_def al_flush_event_queue_def)
  show "queue_bound (al_register_event_source source w)"
    using b by (simp add: queue_bound_def al_register_event_source_def Let_def
        al_event_source_on_registration_to_queue_def)
  show "queue_bound (al_unregister_event_source source w)"
  proof (cases "source \<in> set (sources (queue w))")
    case True
    have e: "events (queue (al_unregister_event_source source w)) =
        filter (\<lambda>p. ev_source (heap w p) \<noteq> source) (events (queue w))"
      using unregister_spec [OF True] by blast
    have "length (events (queue (al_unregister_event_source source w)))
        \<le> length (events (queue w))"
      unfolding e by (rule length_filter_le)
    with b show ?thesis
      by (simp add: queue_bound_def)
  next
    case False
    then show ?thesis
      using b by (simp add: unregister_not_member)
  qed
next
  fix w'
  assume "al_destroy_event_queue w = Inr w'"
  then show "queue_bound w'"
    by (auto simp: al_destroy_event_queue_def queue_bound_def Let_def split: if_splits)
qed

theorem queue_bound_invariant_witness:
  "al_create_event_queue True sample_heap [] =
     Some (log_call RegisterDestructor (sample_world [] []))
   \<and> queue_bound (log_call RegisterDestructor (sample_world [] []))
   \<and> queue_bound (sample_world (replicate 512 7) [3])
   \<and> queue_bound (al_event_queue_push_event 9 (sample_world (replicate 512 7) [3]))
   \<and> queue_bound (al_unregister_event_source 3 (sample_world (replicate 512 7) [3]))
   \<and> al_destroy_event_queue (sample_world [] []) =
       Inr (log_call MutexDestroy (log_call CondDestroy
              (log_call UnregisterDestructor (sample_world [] []))))
   \<and> queue_bound (log_call MutexDestroy (log_call CondDestroy
              (log_call UnregisterDestructor (sample_world [] []))))"
proof -
  have c: "al_create_event_queue True sample_heap [] =
     Some (log_call RegisterDestructor (sample_world [] []))"
    by (simp add: al_create_event_queue_def sample_world_def)
  have b: "queue_bound (sample_world (replicate 512 7) [3])"
    by (simp add: queue_bound_def sample_world_def MAX_QUEUE_SIZE_def)
  have d: "al_destroy_event_queue (sample_world [] []) =
       Inr (log_call MutexDestroy (log_call CondDestroy
              (log_call UnregisterDestructor (sample_world [] []))))"
    by (simp add: al_destroy_event_queue_def Let_def destroy_loop_nil
        al_vector_is_empty_def sample_world_def)
  from queue_bound_invariant [of True sample_heap "[]" "sample_world (replicate 512 7) [3]"
      9 blank_event 3]
    queue_bound_invariant [of True sample_heap "[]" "sample_world [] []" 9 blank_event 3]
    c b d
  show ?thesis
    by (simp add: queue_bound_def sample_world_def)
qed

text \<open>
  C3 (timed wait). Let \<open>al_wait_for_event\<close> be called with a timeout that is not
  ALLEGRO_WAIT_FOREVER and not negative. The deadline is \<open>now + msecs\<close>, in the
  arithmetic of \<open>unsigned long\<close>, from the one reading \<open>now\<close> of the clock, and every
  timed wait that the call makes is given this deadline. When one of them reports a
  timeout, the call returns false, leaves the caller's record alone and releases
  nothing; the buffer and the store are what the pushes of other threads during that
  last wait made of those at the time of the call, so they are exactly as at the time
  of the call when nothing was pushed. The call does return when some wait reports a
  timeout.
\<close>

theorem timed_wait_fixed_deadline_and_timeout:
  assumes "msecs \<noteq> wait_forever" and "0 \<le> sint msecs"
  shows "(\<forall>b r w'. al_wait_for_event wait_forever now ret_event msecs ks w = Inr (b, r, w') \<longrightarrow>
            deadline_always (unat (now + msecs)) (calls_since w w')
            \<and> (timeout_reported (calls_since w w') \<longrightarrow>
                 \<not> b \<and> r = ret_event \<and> released (calls_since w w') = []
                 \<and> sources (queue w') = sources (queue w)
                 \<and> (\<exists>k \<in> set ks. wk_result k = - 1
                      \<and> events (queue w') = events (queue (push_events (wk_pushed k) w))
                      \<and> heap w' = heap (push_events (wk_pushed k) w))
                 \<and> ((\<forall>k \<in> set ks. wk_pushed k = []) \<longrightarrow>
                      events (queue w') = events (queue w) \<and> heap w' = heap w)))
         \<and> ((\<exists>k \<in> set ks. wk_result k = - 1) \<longrightarrow>
              (\<exists>b r w'. al_wait_for_event wait_forever now ret_event msecs ks w =
                          Inr (b, r, w')))"
proof -
  have timed: "al_wait_for_event wait_forever now ret_event msecs ks w =
      wait_on_queue_timed now ret_event msecs ks w"
    using assms by (simp add: al_wait_for_event_def)
  show ?thesis
  proof (intro conjI allI impI)
    fix b r w'
    assume "al_wait_for_event wait_forever now ret_event msecs ks w = Inr (b, r, w')"
    then have run: "wait_on_queue_timed now ret_event msecs ks w = Inr (b, r, w')"
      by (simp add: timed)
    note spec = wait_on_queue_timed_spec [OF run]
    show "deadline_always (unat (now + msecs)) (calls_since w w')"
      using spec by blast
    assume "timeout_reported (calls_since w w')"
    with spec have nb: "\<not> b"
      by blast
    with spec obtain k where k: "k \<in> set ks" "wk_result k = - 1"
      "events (queue w') = events (queue (push_events (wk_pushed k) w))"
      "heap w' = heap (push_events (wk_pushed k) w)"
      by blast
    show "\<not> b" "r = ret_event" "released (calls_since w w') = []"
      "sources (queue w') = sources (queue w)"
      using spec nb by blast+
    show "\<exists>k \<in> set ks. wk_result k = - 1
            \<and> events (queue w') = events (queue (push_events (wk_pushed k) w))
            \<and> heap w' = heap (push_events (wk_pushed k) w)"
      using k by blast
    assume "\<forall>k \<in> set ks. wk_pushed k = []"
    with k(1) have "wk_pushed k = []"
      by blast
    with k(3,4) show "events (queue w') = events (queue w)" "heap w' = heap w"
      by simp_all
  next
    assume "\<exists>k \<in> set ks. wk_result k = - 1"
    then show "\<exists>b r w'. al_wait_for_event wait_forever now ret_event msecs ks w =
                          Inr (b, r, w')"
      unfolding timed by (rule wait_on_queue_timed_returns)
  qed
qed

theorem timed_wait_fixed_deadline_and_timeout_witness:
  "(50 :: 32 word) \<noteq> - 1 \<and> 0 \<le> sint (50 :: 32 word)
   \<and> (\<exists>w'. al_wait_for_event (- 1) (1000 :: 32 word) (Some blank_event) 50
              [\<lparr>wk_pushed = [], wk_result = 0\<rparr>, \<lparr>wk_pushed = [6], wk_result = - 1\<rparr>]
              (sample_world [] [3]) = Inr (False, Some blank_event, w')
          \<and> map fst (calls_since (sample_world [] [3]) w') =
              [CondTimedWait 1050 0, CondTimedWait 1050 (- 1), CondBroadcast]
          \<and> timeout_reported (calls_since (sample_world [] [3]) w')
          \<and> deadline_always 1050 (calls_since (sample_world [] [3]) w')
          \<and> released (calls_since (sample_world [] [3]) w') = []
          \<and> events (queue w') = [6]
          \<and> events (queue w') = events (queue (push_events [6] (sample_world [] [3]))))"
proof -
  let ?w = "sample_world [] [3]"
  let ?k1 = "\<lparr>wk_pushed = [], wk_result = 0\<rparr>"
  let ?k2 = "\<lparr>wk_pushed = [6], wk_result = - 1\<rparr>"
  let ?w1 = "blocked ?k1 (log_call (CondTimedWait 1050 0) (al_mutex_lock ?w))"
  let ?w2 = "blocked ?k2 (log_call (CondTimedWait 1050 (- 1)) ?w1)"
  have h1: "(50 :: 32 word) \<noteq> - 1"
    by simp
  have h2: "0 \<le> sint (50 :: 32 word)"
    by simp
  have d: "unat ((1000 :: 32 word) + 50) = 1050"
    by simp
  have e0: "events (queue (al_mutex_lock ?w)) = []"
    by (simp add: sample_world_def)
  have e1: "events (queue ?w1) = []"
    by (simp add: blocked_def Let_def sample_world_def)
  have loop: "timed_loop 1050 [?k1, ?k2] 0 (al_mutex_lock ?w) = Inr (- 1, ?w2)"
    using timed_loop_step [OF e0, of 0 1050 ?k1 "[?k2]"]
      timed_loop_step [OF e1, of 0 1050 ?k2 "[]"]
      timed_loop_exit [of ?w2 "- 1" 1050 "[]"]
    by simp
  have run: "al_wait_for_event (- 1) (1000 :: 32 word) (Some blank_event) 50 [?k1, ?k2] ?w =
      Inr (False, Some blank_event, al_mutex_unlock ?w2)"
    using wait_on_queue_timed_timeout [of 1000 "50 :: 32 word" "[?k1, ?k2]" ?w ?w2 "Some blank_event"]
      loop
    by (simp add: al_wait_for_event_def)
  have cs: "map fst (calls_since ?w (al_mutex_unlock ?w2)) =
      [CondTimedWait 1050 0, CondTimedWait 1050 (- 1), CondBroadcast]"
    by (simp add: calls_since_def blocked_def Let_def push_simps sample_world_def
        MAX_QUEUE_SIZE_def)
  have tm: "timeout_reported (calls_since ?w (al_mutex_unlock ?w2))"
    by (simp add: calls_since_def blocked_def Let_def push_simps sample_world_def
        MAX_QUEUE_SIZE_def)
  have ev: "events (queue (push_events [6] ?w)) = [6]"
    by (simp add: push_simps sample_world_def MAX_QUEUE_SIZE_def)
  from timed_wait_fixed_deadline_and_timeout [OF h1 h2, of 1000 "Some blank_event"
      "[?k1, ?k2]" ?w] run tm
  have "deadline_always 1050 (calls_since ?w (al_mutex_unlock ?w2))
      \<and> released (calls_since ?w (al_mutex_unlock ?w2)) = []
      \<and> events (queue (al_mutex_unlock ?w2)) = events (queue (push_events [6] ?w))"
    unfolding d by auto
  with h1 h2 run cs tm ev show ?thesis
    by (intro conjI exI [of _ "al_mutex_unlock ?w2"]) simp_all
qed

end
